theory Spec2Isabelle
  imports Main "HOL-Library.Char_ord" "HOL-Library.List_Lexorder"
begin

section \<open>Results of Go functions\<close>

text \<open>
  A Go function of this code base either returns normally, returns a non-nil \<open>error\<close>
  (built with \<open>fmt.Errorf\<close>, kept here as its message), or panics
  (\<open>panic\<close>, \<open>log.Panicf\<close>, kept with its message).
\<close>

datatype 'a result = Panic string | Error string | Ok 'a

fun rbind :: "'a result \<Rightarrow> ('a \<Rightarrow> 'b result) \<Rightarrow> 'b result" where
  "rbind (Panic s) f = Panic s"
| "rbind (Error s) f = Error s"
| "rbind (Ok v) f = f v"

section \<open>Package platform\<close>

text \<open>\<open>type Platform struct { OS Os; Arch Arch }\<close>, both fields strings.\<close>

record platform =
  OS :: string
  Arch :: string

text \<open>\<open>type Macros map[string]int\<close>. The values are only stored and compared, never
  computed with, so the 64-bit \<open>int\<close> of Go is read as a mathematical integer.\<close>

type_synonym macros = "string \<rightharpoonup> int"

text \<open>\<open>cmp.Compare\<close> on strings: byte-wise lexicographic order.\<close>

definition cmp_Compare :: "string \<Rightarrow> string \<Rightarrow> int" where
  "cmp_Compare a b = (if a < b then - 1 else if b < a then 1 else 0)"

definition ComparePlatform :: "platform \<Rightarrow> platform \<Rightarrow> int" where
  "ComparePlatform a b =
     (let d = cmp_Compare (OS a) (OS b)
      in if d \<noteq> 0 then d else cmp_Compare (Arch a) (Arch b))"

text \<open>
  A Go map \<open>map[Platform]Macros\<close> is represented by an association list that is read
  through \<open>map_of\<close>; \<open>maps.Keys\<close> visits every key once (in an order Go leaves open),
  and indexing a missing key yields the nil map, which reads as empty.
\<close>

type_synonym platformMacros = "(platform \<times> macros) list"

definition keys :: "platformMacros \<Rightarrow> platform list" where
  "keys M = remdups (map fst M)"

definition macrosAt :: "platformMacros \<Rightarrow> platform \<Rightarrow> macros" where
  "macrosAt M p = (case map_of M p of None \<Rightarrow> Map.empty | Some m \<Rightarrow> m)"

section \<open>Package parser: the expression AST (expr.go)\<close>

datatype val = Ident string | Constant int

datatype compare = Compare (Left: val) (Op: string) (Right: val)

datatype expr =
    Defined string
  | NotE expr
  | AndE expr expr
  | OrE expr expr
  | CompareE compare

fun Resolve :: "val \<Rightarrow> macros \<Rightarrow> int \<times> bool" where
  "Resolve (Ident n) m = (case m n of None \<Rightarrow> (0, False) | Some v \<Rightarrow> (v, True))"
| "Resolve (Constant c) m = (c, True)"

definition Compare_Eval :: "compare \<Rightarrow> macros \<Rightarrow> bool result" where
  "Compare_Eval c m =
     (let lv = fst (Resolve (Left c) m); rv = fst (Resolve (Right c) m)
      in if Op c = ''=='' then Ok (lv = rv)
         else if Op c = ''!='' then Ok (lv \<noteq> rv)
         else if Op c = ''<'' then Ok (lv < rv)
         else if Op c = ''<='' then Ok (lv \<le> rv)
         else if Op c = ''>'' then Ok (lv > rv)
         else if Op c = ''>='' then Ok (lv \<ge> rv)
         else Panic ''Unknown compare operation type'')"

text \<open>\<open>&&\<close> and \<open>||\<close> of Go evaluate their right operand only when needed.\<close>

fun Eval :: "expr \<Rightarrow> macros \<Rightarrow> bool result" where
  "Eval (Defined n) m = Ok (m n \<noteq> None)"
| "Eval (CompareE c) m = Compare_Eval c m"
| "Eval (NotE x) m = rbind (Eval x m) (\<lambda>b. Ok (\<not> b))"
| "Eval (AndE l r) m = rbind (Eval l m) (\<lambda>b. if b then Eval r m else Ok False)"
| "Eval (OrE l r) m = rbind (Eval l m) (\<lambda>b. if b then Ok True else Eval r m)"

definition Negate :: "compare \<Rightarrow> compare result" where
  "Negate c =
     (if Op c = ''=='' then Ok (Compare (Left c) ''!='' (Right c))
      else if Op c = ''!='' then Ok (Compare (Left c) ''=='' (Right c))
      else if Op c = ''<'' then Ok (Compare (Left c) ''>='' (Right c))
      else if Op c = ''<='' then Ok (Compare (Left c) ''>'' (Right c))
      else if Op c = ''>'' then Ok (Compare (Left c) ''<='' (Right c))
      else if Op c = ''>='' then Ok (Compare (Left c) ''<'' (Right c))
      else Panic ''Unknown compare operation type'')"

section \<open>Package cc: the condition solver (expr\_eval.go)\<close>

record macroTest =
  Macro :: string
  Negated :: bool
  Comparsion :: "compare option"

type_synonym andGroup = "macroTest list"
type_synonym dnf = "andGroup list"

fun toNegationNormalForm :: "expr \<Rightarrow> expr" where
  "toNegationNormalForm (NotE (NotE x)) = toNegationNormalForm x"
| "toNegationNormalForm (NotE (AndE l r)) =
     OrE (toNegationNormalForm (NotE l)) (toNegationNormalForm (NotE r))"
| "toNegationNormalForm (NotE (OrE l r)) =
     AndE (toNegationNormalForm (NotE l)) (toNegationNormalForm (NotE r))"
| "toNegationNormalForm (NotE inner) = NotE (toNegationNormalForm inner)"
| "toNegationNormalForm (AndE l r) = AndE (toNegationNormalForm l) (toNegationNormalForm r)"
| "toNegationNormalForm (OrE l r) = OrE (toNegationNormalForm l) (toNegationNormalForm r)"
| "toNegationNormalForm e = e"

fun extractValueMacro :: "val \<Rightarrow> string \<times> bool" where
  "extractValueMacro (Ident n) = (n, True)"
| "extractValueMacro (Constant c) = ('''', False)"

fun extractMacro :: "expr \<Rightarrow> (string \<times> bool) result" where
  "extractMacro (Defined n) = Ok (n, True)"
| "extractMacro (CompareE c) =
     (let (lName, lDefined) = extractValueMacro (Left c);
          (rName, rDefined) = extractValueMacro (Right c)
      in if lDefined \<and> \<not> rDefined then Ok (lName, True)
         else if \<not> lDefined \<and> rDefined then Ok (rName, True)
         else if lDefined \<and> rDefined \<and> lName = rName then Ok (lName, True)
         else Ok ('''', False))"
| "extractMacro e = Panic ''unknown in extract macro expr''"

definition distribute :: "dnf \<Rightarrow> dnf \<Rightarrow> dnf" where
  "distribute left right = concat (map (\<lambda>lt. map (\<lambda>rt. lt @ rt) right) left)"

fun exprToDnf :: "expr \<Rightarrow> dnf result" where
  "exprToDnf (AndE l r) =
     rbind (exprToDnf l) (\<lambda>left. rbind (exprToDnf r) (\<lambda>right. Ok (distribute left right)))"
| "exprToDnf (OrE l r) =
     rbind (exprToDnf l) (\<lambda>d. rbind (exprToDnf r) (\<lambda>d'. Ok (d @ d')))"
| "exprToDnf (NotE x) =
     rbind (extractMacro x) (\<lambda>(name, _).
       case x of
         CompareE c \<Rightarrow>
           rbind (Negate c) (\<lambda>negated.
             Ok [[\<lparr>Macro = '''', Negated = False, Comparsion = Some negated\<rparr>]])
       | _ \<Rightarrow> Ok [[\<lparr>Macro = name, Negated = True, Comparsion = None\<rparr>]])"
| "exprToDnf (CompareE c) = Ok [[\<lparr>Macro = '''', Negated = False, Comparsion = Some c\<rparr>]]"
| "exprToDnf (Defined n) =
     rbind (extractMacro (Defined n)) (\<lambda>(name, _).
       Ok [[\<lparr>Macro = name, Negated = False, Comparsion = None\<rparr>]])"

definition toDNF :: "expr \<Rightarrow> dnf result" where
  "toDNF e = exprToDnf (toNegationNormalForm e)"

text \<open>
  Modelled from the spec: \<open>collections.Set\<close> (package \<open>index/internal/collections\<close>, not
  among the sources) is a set of platforms, kept here as a duplicate-free list with
  \<open>Add\<close>, \<open>Intersect\<close>, \<open>Diff\<close> and \<open>Join\<close> as the set operations of the spec's
  step 3. \<open>Values\<close> hands the members out as a slice, which is the nil slice for the
  empty set.
\<close>

type_synonym platformSet = "platform list"

definition Add :: "platformSet \<Rightarrow> platform \<Rightarrow> platformSet" where
  "Add s p = (if p \<in> set s then s else s @ [p])"

definition Intersect :: "platformSet \<Rightarrow> platformSet \<Rightarrow> platformSet" where
  "Intersect s t = filter (\<lambda>p. p \<in> set t) s"

definition Diff :: "platformSet \<Rightarrow> platformSet \<Rightarrow> platformSet" where
  "Diff s t = filter (\<lambda>p. p \<notin> set t) s"

definition Join :: "platformSet \<Rightarrow> platformSet \<Rightarrow> platformSet" where
  "Join s t = foldl Add s t"

definition ToSet :: "platform list \<Rightarrow> platformSet" where
  "ToSet ps = foldl Add [] ps"

definition Values :: "platformSet \<Rightarrow> platform list option" where
  "Values s = (if s = [] then None else Some s)"

definition platformsForMacro :: "string \<Rightarrow> platformMacros \<Rightarrow> platformSet" where
  "platformsForMacro macro M =
     foldl (\<lambda>platforms p. if macrosAt M p macro \<noteq> None then Add platforms p else platforms)
       [] (keys M)"

text \<open>The slow path: keep the platforms of \<open>termSet\<close> on which the comparison evaluates
  to \<open>\<not> negated\<close>.\<close>

fun slowPath :: "platformMacros \<Rightarrow> compare \<Rightarrow> bool \<Rightarrow> platform list \<Rightarrow> platformSet
    \<Rightarrow> platformSet result" where
  "slowPath M c negated [] filtered = Ok filtered"
| "slowPath M c negated (p # ps) filtered =
     rbind (Compare_Eval c (macrosAt M p)) (\<lambda>b.
       slowPath M c negated ps (if b = (\<not> negated) then Add filtered p else filtered))"

text \<open>The loop over the literals of one conjunction, with its early exit.\<close>

fun evalConjunct :: "platformMacros \<Rightarrow> andGroup \<Rightarrow> platformSet \<Rightarrow> platformSet result" where
  "evalConjunct M [] termSet = Ok termSet"
| "evalConjunct M (lit # lits) termSet =
     (case Comparsion lit of
        Some c \<Rightarrow> rbind (slowPath M c (Negated lit) termSet []) (\<lambda>filtered.
                    evalConjunct M lits filtered)
      | None \<Rightarrow>
          (let macroSet = platformsForMacro (Macro lit) M;
               termSet' = (if Negated lit then Diff termSet macroSet
                           else Intersect termSet macroSet)
           in if length termSet' = 0 then Ok termSet' else evalConjunct M lits termSet'))"

text \<open>The loop over the conjunctions of the DNF.\<close>

fun evalDnf :: "platformMacros \<Rightarrow> platform list \<Rightarrow> dnf \<Rightarrow> platformSet \<Rightarrow> platformSet result"
  where
  "evalDnf M enabledPlatforms [] matched = Ok matched"
| "evalDnf M enabledPlatforms (conjunct # rest) matched =
     rbind (evalConjunct M conjunct (ToSet enabledPlatforms)) (\<lambda>termSet.
       evalDnf M enabledPlatforms rest (Join matched termSet))"

text \<open>\<open>slices.SortFunc(result, platform.ComparePlatform)\<close>: insertion by the comparison
  function.\<close>

fun insertPlatform :: "platform \<Rightarrow> platform list \<Rightarrow> platform list" where
  "insertPlatform p [] = [p]"
| "insertPlatform p (q # qs) =
     (if ComparePlatform p q \<le> 0 then p # q # qs else q # insertPlatform p qs)"

definition SortFunc :: "platform list \<Rightarrow> platform list" where
  "SortFunc ps = foldr insertPlatform ps []"

text \<open>The result is \<open>None\<close> for the nil slice and \<open>Some ps\<close> for a non-nil slice.\<close>

definition PlatformsForExpr :: "expr option \<Rightarrow> platformMacros \<Rightarrow> platform list option result"
  where
  "PlatformsForExpr e M =
     (case e of
        None \<Rightarrow> Ok None
      | Some e' \<Rightarrow>
          rbind (toDNF e') (\<lambda>d.
            rbind (evalDnf M (keys M) d []) (\<lambda>matched.
              let result = (case Values matched of None \<Rightarrow> [] | Some vs \<Rightarrow> vs)
              in Ok (Some (SortFunc result)))))"

section \<open>Specification-side notions for the condition solver\<close>

text \<open>The six comparison operators of the data model; \<open>holds\<close> is the direct
  evaluation of a guard whose operators are among them.\<close>

definition valid_op :: "string \<Rightarrow> bool" where
  "valid_op s = (s \<in> set [''=='', ''!='', ''<'', ''<='', ''>'', ''>=''])"

fun valid_ops :: "expr \<Rightarrow> bool" where
  "valid_ops (Defined n) = True"
| "valid_ops (NotE x) = valid_ops x"
| "valid_ops (AndE l r) = (valid_ops l \<and> valid_ops r)"
| "valid_ops (OrE l r) = (valid_ops l \<and> valid_ops r)"
| "valid_ops (CompareE c) = valid_op (Op c)"

fun holds :: "expr \<Rightarrow> macros \<Rightarrow> bool" where
  "holds (Defined n) m = (m n \<noteq> None)"
| "holds (NotE x) m = (\<not> holds x m)"
| "holds (AndE l r) m = (holds l m \<and> holds r m)"
| "holds (OrE l r) m = (holds l m \<or> holds r m)"
| "holds (CompareE c) m = (Compare_Eval c m = Ok True)"

fun is_nnf :: "expr \<Rightarrow> bool" where
  "is_nnf (NotE (Defined n)) = True"
| "is_nnf (NotE (CompareE c)) = True"
| "is_nnf (NotE x) = False"
| "is_nnf (AndE l r) = (is_nnf l \<and> is_nnf r)"
| "is_nnf (OrE l r) = (is_nnf l \<and> is_nnf r)"
| "is_nnf e = True"

definition litHolds :: "macroTest \<Rightarrow> macros \<Rightarrow> bool" where
  "litHolds lit m = (case Comparsion lit of
      Some c \<Rightarrow> Compare_Eval c m = Ok (\<not> Negated lit)
    | None \<Rightarrow> (m (Macro lit) \<noteq> None) = (\<not> Negated lit))"

definition litValid :: "macroTest \<Rightarrow> bool" where
  "litValid lit = (case Comparsion lit of Some c \<Rightarrow> valid_op (Op c) | None \<Rightarrow> True)"

definition dnfHolds :: "dnf \<Rightarrow> macros \<Rightarrow> bool" where
  "dnfHolds d m = (\<exists>conj \<in> set d. \<forall>lit \<in> set conj. litHolds lit m)"

text \<open>The fixtures of the solver's tests (\<open>freshPlatformMacros\<close> and the
  ``AND / OR combo'' case).\<close>

definition linuxAMD64 :: platform where
  "linuxAMD64 = \<lparr>OS = ''linux'', Arch = ''x86_64''\<rparr>"

definition windowsAMD64 :: platform where
  "windowsAMD64 = \<lparr>OS = ''windows'', Arch = ''x86_64''\<rparr>"

definition freshPlatformMacros :: platformMacros where
  "freshPlatformMacros =
     [(linuxAMD64, [''LINUX'' \<mapsto> 1, ''SHARED_FLAG'' \<mapsto> 1]),
      (windowsAMD64, [''WIN32'' \<mapsto> 1, ''SHARED_FLAG'' \<mapsto> 0])]"

definition comboExpr :: expr where
  "comboExpr = OrE (AndE (Defined ''LINUX'')
                     (CompareE (Compare (Ident ''SHARED_FLAG'') ''!='' (Constant 0))))
                   (Defined ''WIN32'')"

section \<open>Package platform: the table of predefined macros\<close>

text \<open>The identifiers of \<open>@platforms//os\<close> and \<open>@platforms//cpu\<close> the package knows.\<close>

definition android :: string where "android = ''android''"
definition chromiumos :: string where "chromiumos = ''chromiumos''"
definition emscripten :: string where "emscripten = ''emscripten''"
definition freebsd :: string where "freebsd = ''freebsd''"
definition fuchsia :: string where "fuchsia = ''fuchsia''"
definition haiku :: string where "haiku = ''haiku''"
definition ios :: string where "ios = ''ios''"
definition linux :: string where "linux = ''linux''"
definition netbsd :: string where "netbsd = ''netbsd''"
definition nixos :: string where "nixos = ''nixos''"
definition none :: string where "none = ''none''"
definition openbsd :: string where "openbsd = ''openbsd''"
definition osx :: string where "osx = ''osx''"
definition qnx :: string where "qnx = ''qnx''"
definition tvos :: string where "tvos = ''tvos''"
definition uefi :: string where "uefi = ''uefi''"
definition visionos :: string where "visionos = ''visionos''"
definition vxworks :: string where "vxworks = ''vxworks''"
definition wasi :: string where "wasi = ''wasi''"
definition watchos :: string where "watchos = ''watchos''"
definition windows :: string where "windows = ''windows''"

definition allKnownOs :: "string list" where
  "allKnownOs =
     [android, chromiumos, emscripten, freebsd, fuchsia, haiku, ios,
      linux, netbsd, nixos, none, openbsd, osx, qnx, tvos,
      uefi, visionos, vxworks, wasi, watchos, windows]"

definition aarch32 :: string where "aarch32 = ''aarch32''"
definition aarch64 :: string where "aarch64 = ''aarch64''"
definition arm64_32 :: string where "arm64_32 = ''arm64_32''"
definition arm64e :: string where "arm64e = ''arm64e''"
definition armv6m :: string where "armv6m = ''armv6-m''"
definition armv7 :: string where "armv7 = ''armv7''"
definition armv7em :: string where "armv7em = ''armv7e-m''"
definition armv7emf :: string where "armv7emf = ''armv7e-mf''"
definition armv7k :: string where "armv7k = ''armv7k''"
definition armv7m :: string where "armv7m = ''armv7-m''"
definition armv8m :: string where "armv8m = ''armv8-m''"
definition cortexr52 :: string where "cortexr52 = ''cortex-r52''"
definition cortexr82 :: string where "cortexr82 = ''cortex-r82''"
definition i386 :: string where "i386 = ''i386''"
definition mips64 :: string where "mips64 = ''mips64''"
definition ppc :: string where "ppc = ''ppc''"
definition ppc32 :: string where "ppc32 = ''ppc32''"
definition ppc64le :: string where "ppc64le = ''ppc64le''"
definition riscv32 :: string where "riscv32 = ''riscv32''"
definition riscv64 :: string where "riscv64 = ''riscv64''"
definition s390x :: string where "s390x = ''s390x''"
definition wasm32 :: string where "wasm32 = ''wasm32''"
definition wasm64 :: string where "wasm64 = ''wasm64''"
definition x86_32 :: string where "x86_32 = ''x86_32''"
definition x86_64 :: string where "x86_64 = ''x86_64''"

definition allKnownArch :: "string list" where
  "allKnownArch =
     [aarch32, aarch64, arm64_32, arm64e, armv6m, armv7, armv7em, armv7emf,
      armv7k, armv7m, armv8m, cortexr52, cortexr82, i386, mips64, ppc,
      ppc32, ppc64le, riscv32, riscv64, s390x, wasm32, wasm64, x86_32, x86_64]"

definition platformsMatrix :: "string list \<Rightarrow> string list \<Rightarrow> platform list" where
  "platformsMatrix os arch = concat (map (\<lambda>os. map (\<lambda>arch. \<lparr>OS = os, Arch = arch\<rparr>) arch) os)"

definition osArchPlatform :: "string \<Rightarrow> string \<Rightarrow> platform list" where
  "osArchPlatform os arch = [\<lparr>OS = os, Arch = arch\<rparr>]"

text \<open>\<open>Platform{OS: os}\<close> and \<open>Platform{Arch: arch}\<close> leave the other field empty.\<close>

definition osArchPlatforms :: "string \<Rightarrow> string list \<Rightarrow> platform list" where
  "osArchPlatforms os arch = platformsMatrix [os] arch @ [\<lparr>OS = os, Arch = ''''\<rparr>]"

definition archOsPlatforms :: "string \<Rightarrow> string list \<Rightarrow> platform list" where
  "archOsPlatforms arch os = platformsMatrix os [arch] @ [\<lparr>OS = '''', Arch = arch\<rparr>]"

text \<open>The global \<open>KnownPlatformMacros\<close> is threaded through as the table \<open>T\<close>.\<close>

definition setMacro :: "platform \<Rightarrow> macros \<Rightarrow> platformMacros \<Rightarrow> platformMacros" where
  "setMacro p ms T = map (\<lambda>(q, m). if q = p then (q, ms) else (q, m)) T"

fun addMacroValue :: "string \<Rightarrow> int \<Rightarrow> platform list \<Rightarrow> platformMacros \<Rightarrow> platformMacros" where
  "addMacroValue name v [] T = T"
| "addMacroValue name v (p # ps) T =
     addMacroValue name v ps
       (case map_of T p of
          None \<Rightarrow> T @ [(p, [name \<mapsto> v])]
        | Some ms \<Rightarrow> setMacro p (ms(name \<mapsto> v)) T)"

definition addMacro :: "string \<Rightarrow> platform list \<Rightarrow> platformMacros \<Rightarrow> platformMacros" where
  "addMacro name platforms T = addMacroValue name 1 platforms T"

fun addMacros :: "string list \<Rightarrow> platform list \<Rightarrow> platformMacros \<Rightarrow> platformMacros" where
  "addMacros [] platforms T = T"
| "addMacros (name # macro) platforms T = addMacros macro platforms (addMacro name platforms T)"

text \<open>The local slices of \<open>init\<close>.\<close>

definition windowsArchs :: "string list" where "windowsArchs = [i386, x86_32, x86_64, aarch32, aarch64]"
definition linuxArchs :: "string list" where "linuxArchs = allKnownArch"
definition androidArchs :: "string list" where "androidArchs = [aarch32, aarch64, x86_32, x86_64, riscv64]"
definition chromeArchs :: "string list" where "chromeArchs = [x86_64, aarch64, riscv64]"
definition unixOS :: "string list" where
  "unixOS = [linux, android, chromiumos, nixos, freebsd, netbsd, openbsd, haiku, qnx]"
definition wasmArchs :: "string list" where "wasmArchs = [wasm32, wasm64]"
definition bsdArchs :: "string list" where "bsdArchs = [i386, x86_64, aarch64, riscv64, ppc64le]"
definition qnxArchs :: "string list" where "qnxArchs = [aarch32, aarch64, ppc32, ppc64le, x86_32, x86_64]"
definition haikuArchs :: "string list" where "haikuArchs = [x86_32, x86_64]"
definition fuchsiaArchs :: "string list" where "fuchsiaArchs = [aarch64, x86_64]"
definition vxworksArchs :: "string list" where
  "vxworksArchs = [aarch32, aarch64, ppc32, ppc64le, x86_32, x86_64]"
definition uefiArchs :: "string list" where "uefiArchs = [aarch32, aarch64, x86_32, x86_64, riscv64]"
definition macArchs :: "string list" where "macArchs = [x86_64, aarch64, arm64e]"
definition iosArchs :: "string list" where "iosArchs = [aarch64, arm64e]"
definition tvosArchs :: "string list" where "tvosArchs = [aarch64]"
definition watchArchs :: "string list" where "watchArchs = [armv7k, arm64_32]"
definition visionArchs :: "string list" where "visionArchs = [aarch64]"
definition applePlatforms :: "platform list" where
  "applePlatforms =
     osArchPlatforms osx macArchs @ osArchPlatforms ios iosArchs @ osArchPlatforms tvos tvosArchs @
     osArchPlatforms watchos watchArchs @ osArchPlatforms visionos visionArchs"
definition powerPCOS :: "string list" where "powerPCOS = [linux, freebsd, netbsd, openbsd, qnx, vxworks]"
definition mipsOS :: "string list" where "mipsOS = [linux, netbsd, openbsd, qnx, vxworks]"
definition riscvOS :: "string list" where
  "riscvOS = [linux, freebsd, netbsd, openbsd, qnx, vxworks, android, chromiumos, fuchsia, nixos]"

text \<open>The statements of \<open>init\<close> in their order: each is an \<open>addMacro\<close> (one name) or an
  \<open>addMacros\<close> (several names) on a list of platforms.\<close>

definition initCalls :: "(string list \<times> platform list) list" where
  "initCalls =
   [([''_WIN32''], osArchPlatforms windows windowsArchs),
    ([''_WIN64''], osArchPlatforms windows [x86_64, aarch64]),
    ([''__MINGW32__''], osArchPlatform windows i386),
    ([''__MINGW64__''], osArchPlatform windows x86_64),
    ([''_M_IX86''], osArchPlatform windows i386),
    ([''_M_X64''], osArchPlatform windows x86_64),
    ([''_M_ARM''], osArchPlatform windows aarch32),
    ([''_M_ARM64''], osArchPlatform windows aarch64),
    ([''linux'', ''__linux__'', ''__linux'', ''__gnu_linux__''], osArchPlatforms linux linuxArchs),
    ([''__NIX__''], osArchPlatforms nixos linuxArchs),
    ([''__NIXOS__''], osArchPlatforms nixos linuxArchs),
    ([''__ANDROID__''], osArchPlatforms android androidArchs),
    ([''__CHROMEOS__''], osArchPlatforms chromiumos chromeArchs),
    ([''unix'', ''__unix'', ''__unix__''], platformsMatrix unixOS allKnownArch),
    ([''__EMSCRIPTEN__''], platformsMatrix [emscripten] wasmArchs),
    ([''__wasi__''], platformsMatrix [wasi] wasmArchs),
    ([''__wasm__''], platformsMatrix [emscripten, wasi] wasmArchs),
    ([''__wasm32__''], platformsMatrix [emscripten, wasi] [wasm32]),
    ([''__wasm64__''], platformsMatrix [emscripten, wasi] [wasm64]),
    ([''__FreeBSD__''], platformsMatrix [freebsd] bsdArchs),
    ([''__NetBSD__''], platformsMatrix [netbsd] bsdArchs),
    ([''__OpenBSD__''], platformsMatrix [openbsd] bsdArchs),
    ([''__QNX__''], osArchPlatforms qnx qnxArchs),
    ([''__QNXNTO__''], osArchPlatforms qnx qnxArchs),
    ([''__HAIKU__''], osArchPlatforms haiku haikuArchs),
    ([''__FUCHSIA__''], osArchPlatforms fuchsia fuchsiaArchs),
    ([''__Fuchsia__''], osArchPlatforms fuchsia fuchsiaArchs),
    ([''__VXWORKS__''], osArchPlatforms vxworks vxworksArchs),
    ([''__vxworks''], osArchPlatforms vxworks vxworksArchs),
    ([''__UEFI__''], osArchPlatforms uefi uefiArchs),
    ([''__EFI__''], osArchPlatforms uefi uefiArchs),
    ([''__APPLE__''], applePlatforms),
    ([''__MACH__''], applePlatforms),
    ([''TARGET_OS_OSX''], osArchPlatforms osx macArchs),
    ([''TARGET_OS_MAC''], osArchPlatforms osx macArchs),
    ([''TARGET_OS_IPHONE''], osArchPlatforms ios iosArchs),
    ([''TARGET_OS_IOS''], osArchPlatforms ios iosArchs),
    ([''TARGET_OS_TV''], osArchPlatforms tvos tvosArchs),
    ([''TARGET_OS_WATCH''], osArchPlatforms watchos watchArchs),
    ([''TARGET_OS_VISION''], osArchPlatforms visionos visionArchs),
    ([''__x86_64__'', ''__x86_64'', ''__amd64'', ''__amd64__''], archOsPlatforms aarch64 allKnownOs),
    ([''__i386__'', ''__i386''], archOsPlatforms i386 allKnownOs),
    ([''__arm__'', ''__arm'', ''__thumb__'', ''__thumb''], archOsPlatforms aarch32 allKnownOs),
    ([''__aarch64__'', ''__arm64'', ''__arm64__''], archOsPlatforms aarch64 allKnownOs),
    ([''__ARM64_32__'', ''__ARM64_32''], osArchPlatform watchos arm64_32),
    ([''__arm64e__'', ''__arm64e''], archOsPlatforms arm64e [osx, ios]),
    ([''__ARM_ARCH_6M__''], osArchPlatform none armv6m),
    ([''__ARM_ARCH_7__''], osArchPlatform none armv7),
    ([''__ARM_ARCH_7A__''], osArchPlatform none armv7),
    ([''__ARM_ARCH_7M__''], osArchPlatform none armv7m),
    ([''__ARM_ARCH_7EM__''], osArchPlatform none armv7em),
    ([''__ARM_ARCH_8M_BASE__''], osArchPlatform none armv8m),
    ([''__ARM_ARCH_8M_MAIN__''], osArchPlatform none armv8m),
    ([''__powerpc__''], archOsPlatforms ppc32 powerPCOS),
    ([''__PPC__''], archOsPlatforms ppc32 powerPCOS),
    ([''__powerpc64__''], archOsPlatforms ppc64le powerPCOS),
    ([''__ppc64__''], archOsPlatforms ppc64le powerPCOS),
    ([''__mips64''], archOsPlatforms mips64 mipsOS),
    ([''__s390x__''], osArchPlatform linux s390x),
    ([''__s390__''], osArchPlatform linux s390x),
    ([''__riscv''], archOsPlatforms riscv64 riscvOS)]"

fun runInit :: "(string list \<times> platform list) list \<Rightarrow> platformMacros \<Rightarrow> platformMacros" where
  "runInit [] T = T"
| "runInit ((names, platforms) # calls) T = runInit calls (addMacros names platforms T)"

text \<open>\<open>var KnownPlatformMacros = map[Platform]Macros{}\<close> after \<open>init\<close> has run.\<close>

definition KnownPlatformMacros :: platformMacros where
  "KnownPlatformMacros = runInit initCalls []"

text \<open>Whether some statement of the list registers macro \<open>n\<close> for platform \<open>q\<close>.\<close>

fun registers :: "(string list \<times> platform list) list \<Rightarrow> platform \<Rightarrow> string \<Rightarrow> bool" where
  "registers [] q n = False"
| "registers ((names, platforms) # calls) q n =
     ((q \<in> set platforms \<and> n \<in> set names) \<or> registers calls q n)"

section \<open>Package parser: the tokenizer (parser.go)\<close>

definition EOL :: string where "EOL = ''<EOL>''"

definition newline :: char where "newline = CHR 0x0A"
definition quote :: char where "quote = CHR 0x22"
definition backslash :: string where "backslash = [CHR 0x5C]"

definition isEOL :: "char \<Rightarrow> bool" where
  "isEOL c = (c = newline)"

definition isParanthesis :: "char \<Rightarrow> bool" where
  "isParanthesis c = (c \<in> set ''()[]{}'')"

text \<open>\<open>unicode.IsSpace(rune(char))\<close> for a byte: the Latin-1 white space.\<close>

definition IsSpace :: "char \<Rightarrow> bool" where
  "IsSpace c = (of_char c \<in> set [9, 10, 11, 12, 13, 32, 133, 160 :: nat])"

definition isOperatorChar :: "char \<Rightarrow> bool" where
  "isOperatorChar c = (c \<in> set ''!=<>'')"

text \<open>The inner loop of the block-comment case: it stops one byte before the end of the
  data, so the last byte of an unterminated comment is left to the outer loop.\<close>

fun skipBlockComment :: "string \<Rightarrow> string" where
  "skipBlockComment (a # b # r) =
     (if a = CHR ''*'' \<and> b = CHR ''/'' then r else skipBlockComment (b # r))"
| "skipBlockComment r = r"

definition stopsWord :: "char \<Rightarrow> bool" where
  "stopsWord c = (isEOL c \<or> isOperatorChar c \<or> IsSpace c \<or> isParanthesis c)"

lemma length_skipBlockComment: "length (skipBlockComment r) \<le> length r"
  by (induction r rule: skipBlockComment.induct) auto

lemma tokenizer_termination:
  "length (dropWhile P cs) < Suc (length cs)"
  "length (dropWhile P (tl cs)) < Suc (length cs)"
  "length (skipBlockComment (tl cs)) < Suc (length cs)"
proof -
  show "length (dropWhile P cs) < Suc (length cs)"
    using length_dropWhile_le[of P cs] by simp
  show "length (dropWhile P (tl cs)) < Suc (length cs)"
    using length_dropWhile_le[of P "tl cs"] by simp
  show "length (skipBlockComment (tl cs)) < Suc (length cs)"
    using length_skipBlockComment[of "tl cs"] by simp
qed

text \<open>
  The split function \<open>tokenizer\<close> run by \<open>bufio.Scanner\<close> until the input ends, the
  scanner handing it the whole remaining input (as it does for an input that fits its
  buffer): the list of all tokens, \<open>EOL\<close> markers included.
\<close>

function tokenizer :: "string \<Rightarrow> string list" where
  "tokenizer [] = []"
| "tokenizer (c # cs) =
     (if isEOL c then EOL # tokenizer cs
      else if c = CHR ''/'' \<and> take 1 cs = ''/'' then
        tokenizer (dropWhile (\<lambda>d. d \<noteq> newline) (tl cs))
      else if c = CHR ''/'' \<and> take 1 cs = ''*'' then tokenizer (skipBlockComment (tl cs))
      else if IsSpace c then tokenizer cs
      else if isParanthesis c then [c] # tokenizer cs
      else if isOperatorChar c then
        (if take 1 cs = ''='' then [c, CHR ''=''] # tokenizer (tl cs) else [c] # tokenizer cs)
      else (c # takeWhile (\<lambda>d. \<not> stopsWord d) cs) # tokenizer (dropWhile (\<lambda>d. \<not> stopsWord d) cs))"
  by pat_completeness auto
termination
  by (relation "measure length") (simp_all add: tokenizer_termination)

section \<open>Package parser: the token reader\<close>

record tokenReader =
  scanner :: "string list"
  buf :: "string option"

definition newTokenReader :: "string \<Rightarrow> tokenReader" where
  "newTokenReader input = \<lparr>scanner = tokenizer input, buf = None\<rparr>"

definition fetch :: "tokenReader \<Rightarrow> string option \<times> tokenReader" where
  "fetch tr =
     (case buf tr of
        Some tok \<Rightarrow> (Some tok, tr\<lparr>buf := None\<rparr>)
      | None \<Rightarrow>
          (case scanner tr of
             [] \<Rightarrow> (None, tr)
           | tok # rest \<Rightarrow> (Some tok, tr\<lparr>scanner := rest\<rparr>)))"

definition pending :: "tokenReader \<Rightarrow> nat" where
  "pending tr = length (scanner tr) + (case buf tr of None \<Rightarrow> 0 | Some _ \<Rightarrow> 1)"

lemma fetch_pending:
  "fetch tr = (Some tok, tr') \<Longrightarrow> pending tr' < pending tr"
  by (auto simp: fetch_def pending_def split: option.splits list.splits)

function nextInternal :: "bool \<Rightarrow> tokenReader \<Rightarrow> string option \<times> tokenReader" where
  "nextInternal keepEOL tr =
     (case fetch tr of
        (None, tr') \<Rightarrow> (None, tr')
      | (Some tok, tr') \<Rightarrow>
          if tok = EOL \<and> \<not> keepEOL then nextInternal keepEOL tr' else (Some tok, tr'))"
  by pat_completeness auto
termination
  by (relation "measure (\<lambda>(k, tr). pending tr)") (auto dest: fetch_pending[OF sym])

definition "next" :: "tokenReader \<Rightarrow> string option \<times> tokenReader" where
  "next tr = nextInternal False tr"

definition peekInternal :: "bool \<Rightarrow> tokenReader \<Rightarrow> string option \<times> tokenReader" where
  "peekInternal keepEOL tr =
     (case buf tr of
        Some b \<Rightarrow> if \<not> keepEOL \<and> b = EOL then next tr else (Some b, tr)
      | None \<Rightarrow>
          (case nextInternal keepEOL tr of
             (None, tr') \<Rightarrow> (None, tr')
           | (Some tok, tr') \<Rightarrow> (Some tok, tr'\<lparr>buf := Some tok\<rparr>)))"

definition peek :: "tokenReader \<Rightarrow> string option \<times> tokenReader" where
  "peek tr = peekInternal False tr"

section \<open>Package parser: values of \<open>#if\<close> expressions\<close>

definition isLetter :: "char \<Rightarrow> bool" where
  "isLetter c = ((CHR ''a'' \<le> c \<and> c \<le> CHR ''z'') \<or> (CHR ''A'' \<le> c \<and> c \<le> CHR ''Z''))"

definition isDigit :: "char \<Rightarrow> bool" where
  "isDigit c = (CHR ''0'' \<le> c \<and> c \<le> CHR ''9'')"

text \<open>\<open>macroIdentifierRegex = ^[A-Za-z_][A-Za-z0-9_]*$\<close>.\<close>

definition macroIdentifierRegex :: "string \<Rightarrow> bool" where
  "macroIdentifierRegex s =
     (case s of
        [] \<Rightarrow> False
      | c # cs \<Rightarrow> (isLetter c \<or> c = CHR ''_'') \<and>
                  list_all (\<lambda>d. isLetter d \<or> isDigit d \<or> d = CHR ''_'') cs)"

text \<open>
  Modelled from the Go standard library: \<open>strconv.ParseInt(tok, 0, 64)\<close>, which is not
  part of this repository. An optional sign, then a base prefix (\<open>0x\<close>, \<open>0b\<close>, \<open>0o\<close>, a
  leading \<open>0\<close> for octal, decimal otherwise), then digits of that base, with underscores
  allowed only between digits or after the prefix; the value must fit 64 signed bits.
  \<open>None\<close> stands for a non-nil error.
\<close>

definition lower :: "char \<Rightarrow> char" where
  "lower c = (if CHR ''A'' \<le> c \<and> c \<le> CHR ''Z'' then char_of (of_char c + 32 :: nat) else c)"

definition digitVal :: "char \<Rightarrow> nat option" where
  "digitVal c =
     (if isDigit c then Some (of_char c - of_char (CHR ''0''))
      else if CHR ''a'' \<le> lower c \<and> lower c \<le> CHR ''z''
        then Some (of_char (lower c) - of_char (CHR ''a'') + 10)
      else None)"

fun parseDigits :: "nat \<Rightarrow> nat \<Rightarrow> string \<Rightarrow> nat option" where
  "parseDigits base n [] = Some n"
| "parseDigits base n (c # cs) =
     (if c = CHR ''_'' then parseDigits base n cs
      else (case digitVal c of
              None \<Rightarrow> None
            | Some d \<Rightarrow> if d \<ge> base then None else parseDigits base (n * base + d) cs))"

text \<open>\<open>saw\<close> is the kind of the last character: \<open>CHR ''^''\<close> at the start, \<open>CHR ''0''\<close>
  after a digit or the prefix, \<open>CHR ''_''\<close> after an underscore, \<open>CHR ''!''\<close> otherwise.\<close>

fun underscoreLoop :: "bool \<Rightarrow> char \<Rightarrow> string \<Rightarrow> bool" where
  "underscoreLoop hex saw [] = (saw \<noteq> CHR ''_'')"
| "underscoreLoop hex saw (c # cs) =
     (if isDigit c \<or> (hex \<and> CHR ''a'' \<le> lower c \<and> lower c \<le> CHR ''f'')
        then underscoreLoop hex (CHR ''0'') cs
      else if c = CHR ''_'' then (if saw \<noteq> CHR ''0'' then False else underscoreLoop hex (CHR ''_'') cs)
      else if saw = CHR ''_'' then False
      else underscoreLoop hex (CHR ''!'') cs)"

definition hasBasePrefix :: "string \<Rightarrow> bool" where
  "hasBasePrefix s =
     (case s of
        a # b # _ \<Rightarrow> a = CHR ''0'' \<and> (lower b = CHR ''b'' \<or> lower b = CHR ''o'' \<or> lower b = CHR ''x'')
      | _ \<Rightarrow> False)"

definition underscoreOK :: "string \<Rightarrow> bool" where
  "underscoreOK s0 =
     (let s = (if s0 \<noteq> [] \<and> (hd s0 = CHR ''-'' \<or> hd s0 = CHR ''+'') then tl s0 else s0)
      in if hasBasePrefix s then underscoreLoop (lower (s ! 1) = CHR ''x'') (CHR ''0'') (drop 2 s)
         else underscoreLoop False (CHR ''^'') s)"

definition ParseUint0 :: "string \<Rightarrow> nat option" where
  "ParseUint0 s =
     (if s = [] then None
      else
        (let (base, digits) =
               (if hd s = CHR ''0'' then
                  (if length s \<ge> 3 \<and> lower (s ! 1) = CHR ''b'' then (2, drop 2 s)
                   else if length s \<ge> 3 \<and> lower (s ! 1) = CHR ''o'' then (8, drop 2 s)
                   else if length s \<ge> 3 \<and> lower (s ! 1) = CHR ''x'' then (16, drop 2 s)
                   else (8, tl s))
                else (10, s))
         in case parseDigits base 0 digits of
              None \<Rightarrow> None
            | Some n \<Rightarrow>
                if n \<ge> 2 ^ 64 then None
                else if CHR ''_'' \<in> set digits \<and> \<not> underscoreOK s then None
                else Some n))"

definition ParseInt0 :: "string \<Rightarrow> int option" where
  "ParseInt0 s =
     (if s = [] then None
      else
        (let neg = (hd s = CHR ''-'');
             s' = (if hd s = CHR ''+'' \<or> hd s = CHR ''-'' then tl s else s)
         in case ParseUint0 s' of
              None \<Rightarrow> None
            | Some un \<Rightarrow>
                if \<not> neg \<and> un \<ge> 2 ^ 63 then None
                else if neg \<and> un > 2 ^ 63 then None
                else Some (if neg then - int un else int un)))"

text \<open>\<open>strings.TrimRightFunc\<close> with the suffix letters \<open>u\<close>, \<open>U\<close>, \<open>l\<close>, \<open>L\<close>.\<close>

definition parseIntLiteral :: "string \<Rightarrow> int option" where
  "parseIntLiteral tok = ParseInt0 (rev (dropWhile (\<lambda>r. r \<in> set ''uUlL'') (rev tok)))"

definition interpretValue :: "string \<Rightarrow> val result" where
  "interpretValue token =
     (if macroIdentifierRegex token then Ok (Ident token)
      else (case parseIntLiteral token of
              Some v \<Rightarrow> Ok (Constant v)
            | None \<Rightarrow> Error ''neither a valid identifier of integer constant''))"

definition isBinaryCompareOperator :: "string \<Rightarrow> bool" where
  "isBinaryCompareOperator tok = (tok \<in> set [''=='', ''!='', ''<'', ''<='', ''>'', ''>=''])"

section \<open>Package parser: the expression parser\<close>

record tokensStream =
  tokens :: "string list"
  idx :: nat

definition ts_peek :: "tokensStream \<Rightarrow> string \<Rightarrow> bool" where
  "ts_peek ts s = (idx ts < length (tokens ts) \<and> tokens ts ! idx ts = s)"

definition ts_consume :: "tokensStream \<Rightarrow> string \<Rightarrow> tokensStream result" where
  "ts_consume ts s =
     (if \<not> ts_peek ts s then
        Error (''expected '' @ s @ '', got '' @
               (if idx ts < length (tokens ts) then tokens ts ! idx ts else ''<EOF>''))
      else Ok (ts\<lparr>idx := idx ts + 1\<rparr>))"

definition ts_next :: "tokensStream \<Rightarrow> (string \<times> tokensStream) result" where
  "ts_next ts =
     (if idx ts \<ge> length (tokens ts) then Panic ''unexpected EOL in expression''
      else Ok (tokens ts ! idx ts, ts\<lparr>idx := idx ts + 1\<rparr>))"

lemma rbind_cong [fundef_cong]:
  "x = y \<Longrightarrow> (\<And>v. y = Ok v \<Longrightarrow> f v = g v) \<Longrightarrow> rbind x f = rbind y g"
  by (cases y) auto

text \<open>The last alternative of \<open>parseUnary\<close>: a bare token or a comparison.\<close>

definition parsePrimary :: "tokensStream \<Rightarrow> (expr \<times> tokensStream) result" where
  "parsePrimary ts0 =
     rbind (ts_next ts0) (\<lambda>(token, ts).
       if idx ts < length (tokens ts) \<and> isBinaryCompareOperator (tokens ts ! idx ts) then
         rbind (ts_next ts) (\<lambda>(op, ts1).
         rbind (interpretValue token) (\<lambda>lValue.
         rbind (ts_next ts1) (\<lambda>(rightToken, ts2).
         rbind (interpretValue rightToken) (\<lambda>rValue.
           Ok (CompareE (Compare lValue op rValue), ts2)))))
       else Ok (CompareE (Compare (Ident token) ''!='' (Constant 0)), ts))"

definition parseDefined :: "tokensStream \<Rightarrow> (expr \<times> tokensStream) result" where
  "parseDefined ts0 =
     rbind (ts_consume ts0 ''defined'') (\<lambda>ts.
       if ts_peek ts ''('' then
         rbind (ts_consume ts ''('') (\<lambda>ts1.
         rbind (ts_next ts1) (\<lambda>(name, ts2).
         rbind (ts_consume ts2 '')'') (\<lambda>ts3.
           Ok (Defined name, ts3))))
       else rbind (ts_next ts) (\<lambda>(name, ts1). Ok (Defined name, ts1)))"

definition left :: "tokensStream \<Rightarrow> nat" where
  "left ts = length (tokens ts) - idx ts"

function (domintros)
    parseOr :: "tokensStream \<Rightarrow> (expr \<times> tokensStream) result"
and parseOrLoop :: "expr \<Rightarrow> tokensStream \<Rightarrow> (expr \<times> tokensStream) result"
and parseAnd :: "tokensStream \<Rightarrow> (expr \<times> tokensStream) result"
and parseAndLoop :: "expr \<Rightarrow> tokensStream \<Rightarrow> (expr \<times> tokensStream) result"
and parseUnary :: "tokensStream \<Rightarrow> (expr \<times> tokensStream) result"
where
  "parseOr ts = rbind (parseAnd ts) (\<lambda>(l, ts1). parseOrLoop l ts1)"
| "parseOrLoop l ts =
     (if ts_peek ts ''||'' then
        rbind (ts_consume ts ''||'') (\<lambda>ts1.
        rbind (parseAnd ts1) (\<lambda>(r, ts2). parseOrLoop (OrE l r) ts2))
      else Ok (l, ts))"
| "parseAnd ts = rbind (parseUnary ts) (\<lambda>(l, ts1). parseAndLoop l ts1)"
| "parseAndLoop l ts =
     (if ts_peek ts ''&&'' then
        rbind (ts_consume ts ''&&'') (\<lambda>ts1.
        rbind (parseUnary ts1) (\<lambda>(r, ts2). parseAndLoop (AndE l r) ts2))
      else Ok (l, ts))"
| "parseUnary ts =
     (if ts_peek ts ''!'' then
        rbind (ts_consume ts ''!'') (\<lambda>ts1.
        rbind (parseUnary ts1) (\<lambda>(e, ts2). Ok (NotE e, ts2)))
      else if ts_peek ts ''('' then
        rbind (ts_consume ts ''('') (\<lambda>ts1.
        rbind (parseOr ts1) (\<lambda>(e, ts2).
        rbind (ts_consume ts2 '')'') (\<lambda>ts3. Ok (e, ts3))))
      else if ts_peek ts ''defined'' then parseDefined ts
      else parsePrimary ts)"
  by pat_completeness auto


definition advances :: "tokensStream \<Rightarrow> tokensStream \<Rightarrow> bool" where
  "advances ts ts' = (tokens ts' = tokens ts \<and> idx ts \<le> idx ts')"

lemma rbind_eq_Ok: "rbind x f = Ok v \<longleftrightarrow> (\<exists>u. x = Ok u \<and> f u = Ok v)"
  by (cases x) auto

lemma advances_refl: "advances ts ts"
  by (simp add: advances_def)

lemma advances_trans: "advances a b \<Longrightarrow> advances b c \<Longrightarrow> advances a c"
  by (auto simp: advances_def)

lemma ts_consume_Ok:
  "ts_consume ts s = Ok ts1 \<Longrightarrow> advances ts ts1 \<and> left ts1 < left ts"
  by (auto simp: ts_consume_def ts_peek_def advances_def left_def split: if_splits)

lemma ts_next_Ok:
  "ts_next ts = Ok (t, ts1) \<Longrightarrow> advances ts ts1 \<and> left ts1 < left ts"
  by (auto simp: ts_next_def advances_def left_def split: if_splits)

lemma advances_left: "advances ts ts' \<Longrightarrow> left ts' \<le> left ts"
  by (auto simp: advances_def left_def)

lemma parseDefined_Ok: "parseDefined ts = Ok (e, ts') \<Longrightarrow> advances ts ts'"
  by (auto simp: parseDefined_def rbind_eq_Ok split: if_splits
      dest!: ts_consume_Ok ts_next_Ok intro: advances_trans)

lemma parsePrimary_Ok: "parsePrimary ts = Ok (e, ts') \<Longrightarrow> advances ts ts'"
  by (auto simp: parsePrimary_def rbind_eq_Ok split: if_splits
      dest!: ts_consume_Ok ts_next_Ok intro: advances_trans)

lemma parse_advances_partial:
  "parseOr_parseOrLoop_parseAnd_parseAndLoop_parseUnary_dom (Inl (Inl ts)) \<Longrightarrow>
     (\<And>e ts'. parseOr ts = Ok (e, ts') \<Longrightarrow> advances ts ts')"
  "parseOr_parseOrLoop_parseAnd_parseAndLoop_parseUnary_dom (Inl (Inr (l, ts1))) \<Longrightarrow>
     (\<And>e ts'. parseOrLoop l ts1 = Ok (e, ts') \<Longrightarrow> advances ts1 ts')"
  "parseOr_parseOrLoop_parseAnd_parseAndLoop_parseUnary_dom (Inr (Inl ts2)) \<Longrightarrow>
     (\<And>e ts'. parseAnd ts2 = Ok (e, ts') \<Longrightarrow> advances ts2 ts')"
  "parseOr_parseOrLoop_parseAnd_parseAndLoop_parseUnary_dom (Inr (Inr (Inl (l', ts3)))) \<Longrightarrow>
     (\<And>e ts'. parseAndLoop l' ts3 = Ok (e, ts') \<Longrightarrow> advances ts3 ts')"
  "parseOr_parseOrLoop_parseAnd_parseAndLoop_parseUnary_dom (Inr (Inr (Inr ts4))) \<Longrightarrow>
     (\<And>e ts'. parseUnary ts4 = Ok (e, ts') \<Longrightarrow> advances ts4 ts')"
proof (induct rule: parseOr_parseOrLoop_parseAnd_parseAndLoop_parseUnary.pinduct)
  case (1 ts)
  from 1(4) 1(1) obtain l ts1 where a: "parseAnd ts = Ok (l, ts1)" "parseOrLoop l ts1 = Ok (e, ts')"
    by (auto simp: parseOr.psimps rbind_eq_Ok)
  from 1(2)[OF a(1)] 1(3)[OF a(1) refl a(2)] show ?case by (rule advances_trans)
next
  case (2 l ts)
  show ?case
  proof (cases "ts_peek ts ''||''")
    case True
    with 2(4) 2(1) obtain v r ts2 where a: "ts_consume ts ''||'' = Ok v" "parseAnd v = Ok (r, ts2)"
      "parseOrLoop (OrE l r) ts2 = Ok (e, ts')"
      by (auto simp: parseOrLoop.psimps rbind_eq_Ok)
    from ts_consume_Ok[OF a(1)] 2(2)[OF True a(1) a(2)] 2(3)[OF True a(1) a(2) refl a(3)]
    show ?thesis by (blast intro: advances_trans)
  next
    case False
    with 2(4) 2(1) show ?thesis by (simp add: parseOrLoop.psimps advances_refl)
  qed
next
  case (3 ts)
  from 3(4) 3(1) obtain l ts1 where a: "parseUnary ts = Ok (l, ts1)" "parseAndLoop l ts1 = Ok (e, ts')"
    by (auto simp: parseAnd.psimps rbind_eq_Ok)
  from 3(2)[OF a(1)] 3(3)[OF a(1) refl a(2)] show ?case by (rule advances_trans)
next
  case (4 l ts)
  show ?case
  proof (cases "ts_peek ts ''&&''")
    case True
    with 4(4) 4(1) obtain v r ts2 where a: "ts_consume ts ''&&'' = Ok v" "parseUnary v = Ok (r, ts2)"
      "parseAndLoop (AndE l r) ts2 = Ok (e, ts')"
      by (auto simp: parseAndLoop.psimps rbind_eq_Ok)
    from ts_consume_Ok[OF a(1)] 4(2)[OF True a(1) a(2)] 4(3)[OF True a(1) a(2) refl a(3)]
    show ?thesis by (blast intro: advances_trans)
  next
    case False
    with 4(4) 4(1) show ?thesis by (simp add: parseAndLoop.psimps advances_refl)
  qed
next
  case (5 ts)
  consider (a) "ts_peek ts ''!''" | (b) "\<not> ts_peek ts ''!''" "ts_peek ts ''(''"
    | (c) "\<not> ts_peek ts ''!''" "\<not> ts_peek ts ''(''" by blast
  then show ?case
  proof cases
    case a
    with 5(4) 5(1) obtain v x ts2 where h: "ts_consume ts ''!'' = Ok v" "parseUnary v = Ok (x, ts2)"
      "ts' = ts2"
      by (auto simp: parseUnary.psimps rbind_eq_Ok)
    from ts_consume_Ok[OF h(1)] 5(2)[OF a h(1) h(2)] h(3) show ?thesis
      by (blast intro: advances_trans)
  next
    case b
    with 5(4) 5(1) obtain v x ts2 where h: "ts_consume ts ''('' = Ok v" "parseOr v = Ok (x, ts2)"
      "ts_consume ts2 '')'' = Ok ts'"
      by (auto simp: parseUnary.psimps rbind_eq_Ok)
    from ts_consume_Ok[OF h(1)] 5(3)[OF b h(1) h(2)] ts_consume_Ok[OF h(3)] show ?thesis
      by (blast intro: advances_trans)
  next
    case c
    with 5(4) 5(1) show ?thesis
      by (auto simp: parseUnary.psimps split: if_splits dest: parseDefined_Ok parsePrimary_Ok)
  qed
qed

definition parseRank ::
  "(tokensStream + expr \<times> tokensStream) + (tokensStream + (expr \<times> tokensStream + tokensStream))
     \<Rightarrow> nat \<times> nat" where
  "parseRank x = (case x of
       Inl (Inl ts) \<Rightarrow> (left ts, 4)
     | Inl (Inr (l, ts)) \<Rightarrow> (left ts, 0)
     | Inr (Inl ts) \<Rightarrow> (left ts, 3)
     | Inr (Inr (Inl (l, ts))) \<Rightarrow> (left ts, 0)
     | Inr (Inr (Inr ts)) \<Rightarrow> (left ts, 2))"

termination parseOr
proof (relation "inv_image (less_than <*lex*> less_than) parseRank", goal_cases)
  case 1
  show ?case by (intro wf_inv_image wf_lex_prod wf_less_than)
next
  case (2 ts)
  then show ?case by (simp add: parseRank_def)
next
  case (3 ts v x y)
  then have "parseAnd ts = Ok (x, y)" by simp
  from advances_left[OF parse_advances_partial(3)[OF 3(3) this]]
  show ?case by (auto simp: parseRank_def)
next
  case (4 l ts v)
  then show ?case using ts_consume_Ok[OF 4(2)] by (simp add: parseRank_def)
next
  case (5 l ts v va x y)
  then have "parseAnd v = Ok (x, y)" by simp
  from advances_left[OF parse_advances_partial(3)[OF 5(5) this]] ts_consume_Ok[OF 5(2)]
  show ?case by (auto simp: parseRank_def)
next
  case (6 ts)
  then show ?case by (simp add: parseRank_def)
next
  case (7 ts v x y)
  then have "parseUnary ts = Ok (x, y)" by simp
  from advances_left[OF parse_advances_partial(5)[OF 7(3) this]]
  show ?case by (auto simp: parseRank_def)
next
  case (8 l ts v)
  then show ?case using ts_consume_Ok[OF 8(2)] by (simp add: parseRank_def)
next
  case (9 l ts v va x y)
  then have "parseUnary v = Ok (x, y)" by simp
  from advances_left[OF parse_advances_partial(5)[OF 9(5) this]] ts_consume_Ok[OF 9(2)]
  show ?case by (auto simp: parseRank_def)
next
  case (10 ts v)
  then show ?case using ts_consume_Ok[OF 10(2)] by (simp add: parseRank_def)
next
  case (11 ts v)
  then show ?case using ts_consume_Ok[OF 11(3)] by (simp add: parseRank_def)
qed

declare parseOr.simps [simp del] parseOrLoop.simps [simp del] parseAnd.simps [simp del]
  parseAndLoop.simps [simp del] parseUnary.simps [simp del]

section \<open>Package parser: the source parser\<close>

record Include =
  Path :: string
  IsSystemInclude :: bool
  Condition :: "expr option"

record SourceInfo =
  Includes :: "Include list"
  HasMain :: bool

record parser =
  tr :: tokenReader
  lastToken :: string
  sourceInfo :: SourceInfo
  conditionStack :: "expr list"
  exprGroupStack :: "expr list list"

definition currentGuard :: "parser \<Rightarrow> expr option" where
  "currentGuard p =
     (case conditionStack p of [] \<Rightarrow> None | acc # rest \<Rightarrow> Some (foldl AndE acc rest))"

definition pushCondition :: "expr \<Rightarrow> parser \<Rightarrow> parser" where
  "pushCondition e p = p\<lparr>conditionStack := conditionStack p @ [e]\<rparr>"

definition popCondition :: "parser \<Rightarrow> bool \<times> parser" where
  "popCondition p =
     (if length (conditionStack p) = 0 then (False, p)
      else (True, p\<lparr>conditionStack := butlast (conditionStack p)\<rparr>))"

text \<open>\<open>currentGroup\<close> returns the nil slice (\<open>None\<close>) for the empty stack; the groups
  themselves are never nil, they start as \<open>[]Expr{expr}\<close>.\<close>

definition currentGroup :: "parser \<Rightarrow> expr list option" where
  "currentGroup p =
     (if length (exprGroupStack p) = 0 then None else Some (last (exprGroupStack p)))"

definition pushNewGroup :: "expr \<Rightarrow> parser \<Rightarrow> parser" where
  "pushNewGroup e p = p\<lparr>exprGroupStack := exprGroupStack p @ [[e]]\<rparr>"

definition appendToCurrentGroup :: "expr \<Rightarrow> parser \<Rightarrow> parser result" where
  "appendToCurrentGroup e p =
     (if length (exprGroupStack p) = 0
      then Panic ''parser invariant violated: no expression group present''
      else Ok (p\<lparr>exprGroupStack :=
                 butlast (exprGroupStack p) @ [last (exprGroupStack p) @ [e]]\<rparr>))"

definition popGroup :: "parser \<Rightarrow> bool \<times> parser" where
  "popGroup p =
     (if length (exprGroupStack p) = 0 then (False, p)
      else (True, p\<lparr>exprGroupStack := butlast (exprGroupStack p)\<rparr>))"

definition orAll :: "expr list \<Rightarrow> expr result" where
  "orAll xs = (case xs of [] \<Rightarrow> Panic ''empty orAll'' | acc # rest \<Rightarrow> Ok (foldl OrE acc rest))"

lemma fetch_None: "fetch t = (None, t1) \<Longrightarrow> t1 = t"
  by (auto simp: fetch_def split: option.splits list.splits)

lemma nextInternal_pending:
  "nextInternal k t = (r, t') \<Longrightarrow> pending t' \<le> pending t \<and> (r \<noteq> None \<longrightarrow> pending t' < pending t)"
proof (induction "pending t" arbitrary: t rule: less_induct)
  case less
  obtain x t1 where f: "fetch t = (x, t1)" by (cases "fetch t")
  show ?case
  proof (cases x)
    case None
    with f less.prems have "t' = t1" "r = None" by (auto simp: nextInternal.simps[of k t])
    with fetch_None f None show ?thesis by auto
  next
    case (Some tok)
    with f have lt: "pending t1 < pending t" by (simp add: fetch_pending)
    show ?thesis
    proof (cases "tok = EOL \<and> \<not> k")
      case True
      with f Some less.prems have "nextInternal k t1 = (r, t')"
        by (simp add: nextInternal.simps[of k t])
      from less.hyps[OF lt this] lt show ?thesis by auto
    next
      case False
      with f Some less.prems lt show ?thesis by (auto simp: nextInternal.simps[of k t])
    qed
  qed
qed


declare nextInternal.simps [simp del]

lemma next_pending:
  "next t = (r, t') \<Longrightarrow> pending t' \<le> pending t \<and> (r \<noteq> None \<longrightarrow> pending t' < pending t)"
  unfolding next_def by (rule nextInternal_pending)

lemma peek_pending: "peek t = (r, t') \<Longrightarrow> pending t' \<le> pending t"
proof -
  assume a: "peek t = (r, t')"
  show ?thesis
  proof (cases "buf t")
    case None
    obtain x t1 where n: "nextInternal False t = (x, t1)" by (cases "nextInternal False t")
    from nextInternal_pending[OF n] n a None show ?thesis
      by (cases x) (auto simp: peek_def peekInternal_def pending_def)
  next
    case (Some b)
    with a next_pending[of t r t'] show ?thesis
      by (auto simp: peek_def peekInternal_def split: if_splits)
  qed
qed

text \<open>Returns the next macro identifier, stepping over line continuations.\<close>

function parseIdent :: "parser \<Rightarrow> (string \<times> parser) result" where
  "parseIdent p =
     (case next (tr p) of
        (None, tr') \<Rightarrow> Error ''expected identifier, found EOF''
      | (Some token, tr') \<Rightarrow>
          if token = backslash then parseIdent (p\<lparr>tr := tr'\<rparr>)
          else Ok (token, p\<lparr>tr := tr'\<rparr>))"
  by pat_completeness auto
termination
  by (relation "measure (\<lambda>p. pending (tr p))") (auto dest!: next_pending[OF sym])

declare parseIdent.simps [simp del]

text \<open>The \<open>collect\<close> loop of \<open>parseExpr\<close>: the tokens up to the end of the logical line.
  The scanner cannot fail on an in-memory input, so \<open>tr.scanner.Err()\<close> prints as
  \<open><nil>\<close>.\<close>

function collect :: "tokenReader \<Rightarrow> string list \<Rightarrow> (string list \<times> tokenReader) result" where
  "collect t acc =
     (case nextInternal True t of
        (None, t') \<Rightarrow> Error ''expected more tokens: <nil>''
      | (Some token, t1) \<Rightarrow>
          if token = backslash then
            (case peek t1 of
               (nxt, t2) \<Rightarrow>
                 if nxt = Some EOL then (case next t2 of (_, t3) \<Rightarrow> collect t3 acc)
                 else collect t2 acc)
          else if token = EOL then Ok (acc, t1)
          else collect t1 (acc @ [token]))"
  by pat_completeness auto
termination
proof (relation "measure (\<lambda>(t, acc). pending t)", goal_cases)
  case 1
  show ?case by simp
next
  case (2 t acc x t1 token nxt t2 y t3)
  then show ?case
    using nextInternal_pending[of True t "Some token" t1] peek_pending[of t1 nxt t2]
      next_pending[of t2 y t3] by auto
next
  case (3 t acc x t1 token nxt t2)
  then show ?case
    using nextInternal_pending[of True t "Some token" t1] peek_pending[of t1 nxt t2] by auto
next
  case (4 t acc x t1 token)
  then show ?case using nextInternal_pending[of True t "Some token" t1] by auto
qed

declare collect.simps [simp del]

definition parseExpr :: "parser \<Rightarrow> (expr \<times> parser) result" where
  "parseExpr p =
     rbind (collect (tr p) []) (\<lambda>(toks, t').
     rbind (parseOr \<lparr>tokens = toks, idx = 0\<rparr>) (\<lambda>(e, ts). Ok (e, p\<lparr>tr := t'\<rparr>)))"

text \<open>\<open>strings.Trim(include, "\"")\<close>.\<close>

definition TrimQuotes :: "string \<Rightarrow> string" where
  "TrimQuotes s = rev (dropWhile (\<lambda>c. c = quote) (rev (dropWhile (\<lambda>c. c = quote) s)))"

definition recordInclude :: "string \<Rightarrow> bool \<Rightarrow> parser \<Rightarrow> parser" where
  "recordInclude include isBracket p =
     p\<lparr>sourceInfo := (sourceInfo p)\<lparr>Includes := Includes (sourceInfo p) @
        [\<lparr>Path = TrimQuotes include, IsSystemInclude = isBracket, Condition = currentGuard p\<rparr>]\<rparr>\<rparr>"

definition handleInclude :: "parser \<Rightarrow> parser result" where
  "handleInclude p =
     (case next (tr p) of
        (None, t1) \<Rightarrow> Error ''unexpected EOF after #include''
      | (Some include, t1) \<Rightarrow>
          if include = ''<'' then
            (case next t1 of
               (None, t2) \<Rightarrow> Error ''unexpected EOF in bracketed include''
             | (Some include', t2) \<Rightarrow> Ok (recordInclude include' True (p\<lparr>tr := t2\<rparr>)))
          else if quote \<notin> set include then Ok (recordInclude include True (p\<lparr>tr := t1\<rparr>))
          else Ok (recordInclude include False (p\<lparr>tr := t1\<rparr>)))"

definition handleIfdef :: "string \<Rightarrow> parser \<Rightarrow> parser result" where
  "handleIfdef kind p =
     rbind (parseIdent p) (\<lambda>(ident, p1).
       let e = (if kind = ''#ifndef'' then NotE (Defined ident) else Defined ident)
       in Ok (pushNewGroup e (pushCondition e p1)))"

definition handleIf :: "parser \<Rightarrow> parser result" where
  "handleIf p =
     rbind (parseExpr p) (\<lambda>(e, p1). Ok (pushNewGroup e (pushCondition e p1)))"

definition handleElse :: "parser \<Rightarrow> parser result" where
  "handleElse p =
     (let cur = currentGroup p; (ok, p1) = popCondition p
      in case cur of
           None \<Rightarrow> Ok p1
         | Some xs \<Rightarrow>
             if \<not> ok then Ok p1
             else rbind (orAll xs) (\<lambda>d.
                    let neg = NotE d in appendToCurrentGroup neg (pushCondition neg p1)))"

text \<open>The \<open>switch kind\<close> of \<open>handleElif\<close>: the branch expression of the directive.
  \<open>handleElif\<close> is called with the kinds \<open>#elif\<close>, \<open>#elifdef\<close> and \<open>#elifndef\<close> only.\<close>

definition elifExpr :: "string \<Rightarrow> parser \<Rightarrow> (expr \<times> parser) result" where
  "elifExpr kind p =
     (if kind = ''#elif'' then parseExpr p
      else rbind (parseIdent p) (\<lambda>(ident, p1).
             Ok (if kind = ''#elifndef'' then NotE (Defined ident) else Defined ident, p1)))"

definition handleElif :: "string \<Rightarrow> parser \<Rightarrow> parser result" where
  "handleElif kind p =
     (let cur = currentGroup p; (ok, p1) = popCondition p
      in case cur of
           None \<Rightarrow> Ok p1
         | Some xs \<Rightarrow>
             if \<not> ok then Ok p1
             else
               rbind (elifExpr kind p1) (\<lambda>(e, p2).
                 rbind (orAll xs) (\<lambda>d.
                   let notPrev = NotE d; branch = AndE e notPrev
                   in appendToCurrentGroup e (pushCondition branch p2))))"

definition parseDirective :: "string \<Rightarrow> parser \<Rightarrow> parser result" where
  "parseDirective tok p =
     (if tok = ''#include'' then handleInclude p
      else if tok = ''#ifdef'' \<or> tok = ''#ifndef'' then handleIfdef tok p
      else if tok = ''#if'' then handleIf p
      else if tok = ''#else'' then handleElse p
      else if tok = ''#elif'' \<or> tok = ''#elifdef'' \<or> tok = ''#elifndef'' then handleElif tok p
      else if tok = ''#endif'' then Ok (snd (popGroup (snd (popCondition p))))
      else Ok p)"

lemma parseIdent_pending:
  "parseIdent p = Ok (t, p') \<Longrightarrow> pending (tr p') < pending (tr p)"
proof (induction p rule: parseIdent.induct)
  case (1 p)
  obtain x t1 where n: "next (tr p) = (x, t1)" by (cases "next (tr p)")
  show ?case
  proof (cases x)
    case None
    with n 1(2) show ?thesis by (simp add: parseIdent.simps[of p])
  next
    case (Some token)
    with next_pending[OF n] have lt: "pending t1 < pending (tr p)" by simp
    show ?thesis
    proof (cases "token = backslash")
      case True
      with n Some 1(2) have "parseIdent (p\<lparr>tr := t1\<rparr>) = Ok (t, p')"
        by (simp add: parseIdent.simps[of p])
      from 1(1)[OF n[symmetric] Some True this] lt show ?thesis by simp
    next
      case False
      with n Some 1(2) lt show ?thesis by (auto simp: parseIdent.simps[of p])
    qed
  qed
qed

lemma collect_pending: "collect t acc = Ok (toks, t') \<Longrightarrow> pending t' < pending t"
proof (induction "pending t" arbitrary: t acc rule: less_induct)
  case less
  obtain x t1 where n: "nextInternal True t = (x, t1)" by (cases "nextInternal True t")
  show ?case
  proof (cases x)
    case None
    with n less.prems show ?thesis by (simp add: collect.simps[of t])
  next
    case (Some token)
    with nextInternal_pending[OF n] have lt: "pending t1 < pending t" by simp
    consider (bs) "token = backslash" | (eol) "token \<noteq> backslash" "token = EOL"
      | (other) "token \<noteq> backslash" "token \<noteq> EOL" by blast
    then show ?thesis
    proof cases
      case bs
      obtain nxt t2 where pk: "peek t1 = (nxt, t2)" by (cases "peek t1")
      from peek_pending[OF pk] lt have lt2: "pending t2 < pending t" by simp
      show ?thesis
      proof (cases "nxt = Some EOL")
        case True
        obtain y t3 where nx: "next t2 = (y, t3)" by (cases "next t2")
        from next_pending[OF nx] lt2 have lt3: "pending t3 < pending t" by simp
        from n Some bs pk True nx less.prems have "collect t3 acc = Ok (toks, t')"
          by (simp add: collect.simps[of t])
        from less.hyps[OF lt3 this] lt3 show ?thesis by simp
      next
        case False
        from n Some bs pk False less.prems have "collect t2 acc = Ok (toks, t')"
          by (simp add: collect.simps[of t])
        from less.hyps[OF lt2 this] lt2 show ?thesis by simp
      qed
    next
      case eol
      with n Some less.prems lt show ?thesis by (simp add: collect.simps[of t])
    next
      case other
      with n Some less.prems have "collect t1 (acc @ [token]) = Ok (toks, t')"
        by (simp add: collect.simps[of t])
      from less.hyps[OF lt this] lt show ?thesis by simp
    qed
  qed
qed

lemma parseExpr_pending:
  assumes "parseExpr p = Ok (e, p')"
  shows "pending (tr p') < pending (tr p)"
proof -
  from assms obtain toks t' where c: "collect (tr p) [] = Ok (toks, t')" and p': "tr p' = t'"
    unfolding parseExpr_def rbind_eq_Ok by (auto simp: rbind_eq_Ok)
  from collect_pending[OF c] p' show ?thesis by simp
qed

lemma tr_stack_updates [simp]:
  "tr (pushCondition e p) = tr p" "tr (pushNewGroup e p) = tr p"
  "tr (snd (popCondition p)) = tr p" "tr (snd (popGroup p)) = tr p"
  "tr (recordInclude i b p) = tr p"
  by (simp_all add: pushCondition_def pushNewGroup_def popCondition_def popGroup_def
      recordInclude_def)

lemma appendToCurrentGroup_tr: "appendToCurrentGroup e p = Ok p' \<Longrightarrow> tr p' = tr p"
  by (auto simp: appendToCurrentGroup_def split: if_splits)

lemma handleInclude_pending: "handleInclude p = Ok p' \<Longrightarrow> pending (tr p') \<le> pending (tr p)"
proof -
  assume a: "handleInclude p = Ok p'"
  obtain x t1 where n: "next (tr p) = (x, t1)" by (cases "next (tr p)")
  obtain y t2 where n2: "next t1 = (y, t2)" by (cases "next t1")
  from next_pending[OF n] next_pending[OF n2] a n n2 show ?thesis
    by (cases x; cases y) (auto simp: handleInclude_def split: if_splits)
qed

lemma handleIfdef_pending:
  assumes "handleIfdef k p = Ok p'"
  shows "pending (tr p') \<le> pending (tr p)"
proof -
  from assms obtain ident p1 where i: "parseIdent p = Ok (ident, p1)" and p': "tr p' = tr p1"
    unfolding handleIfdef_def rbind_eq_Ok by (auto simp: Let_def)
  from parseIdent_pending[OF i] p' show ?thesis by simp
qed

lemma handleIf_pending:
  assumes "handleIf p = Ok p'"
  shows "pending (tr p') \<le> pending (tr p)"
proof -
  from assms obtain e p1 where i: "parseExpr p = Ok (e, p1)" and p': "tr p' = tr p1"
    unfolding handleIf_def rbind_eq_Ok by auto
  from parseExpr_pending[OF i] p' show ?thesis by simp
qed

lemma popCondition_eq: "popCondition p = (ok, p1) \<Longrightarrow> tr p1 = tr p"
  by (auto simp: popCondition_def split: if_splits)

lemma handleElse_pending: "handleElse p = Ok p' \<Longrightarrow> pending (tr p') \<le> pending (tr p)"
proof -
  assume a: "handleElse p = Ok p'"
  obtain ok p1 where pc: "popCondition p = (ok, p1)" by (cases "popCondition p")
  from a pc popCondition_eq[OF pc] show ?thesis
    by (auto simp: handleElse_def rbind_eq_Ok Let_def split: option.splits if_splits
        dest!: appendToCurrentGroup_tr)
qed

lemma elifExpr_pending:
  assumes "elifExpr k p = Ok (e, p')"
  shows "pending (tr p') < pending (tr p)"
proof (cases "k = ''#elif''")
  case True
  with assms show ?thesis by (simp add: elifExpr_def parseExpr_pending)
next
  case False
  with assms obtain ident where "parseIdent p = Ok (ident, p')"
    by (auto simp: elifExpr_def rbind_eq_Ok)
  then show ?thesis by (rule parseIdent_pending)
qed

lemma handleElif_pending: "handleElif k p = Ok p' \<Longrightarrow> pending (tr p') \<le> pending (tr p)"
proof -
  assume a: "handleElif k p = Ok p'"
  obtain ok p1 where pc: "popCondition p = (ok, p1)" by (cases "popCondition p")
  from a pc popCondition_eq[OF pc] show ?thesis
    by (auto simp: handleElif_def rbind_eq_Ok Let_def split: option.splits if_splits
        dest!: appendToCurrentGroup_tr elifExpr_pending)
qed

lemma parseDirective_cases:
  assumes "parseDirective tok p = r"
  obtains (inc) "tok = ''#include''" "handleInclude p = r"
    | (ifdef) "tok = ''#ifdef'' \<or> tok = ''#ifndef''" "handleIfdef tok p = r"
    | (if') "tok = ''#if''" "handleIf p = r"
    | (else') "tok = ''#else''" "handleElse p = r"
    | (elif) "tok = ''#elif'' \<or> tok = ''#elifdef'' \<or> tok = ''#elifndef''" "handleElif tok p = r"
    | (endif) "tok = ''#endif''" "r = Ok (snd (popGroup (snd (popCondition p))))"
    | (other) "r = Ok p"
proof (cases "tok = ''#include''")
  case True
  with assms inc show ?thesis by (simp add: parseDirective_def)
next
  case f1: False
  show ?thesis
  proof (cases "tok = ''#ifdef'' \<or> tok = ''#ifndef''")
    case True
    with assms ifdef show ?thesis by (auto simp add: parseDirective_def)
  next
    case f2: False
    show ?thesis
    proof (cases "tok = ''#if''")
      case True
      with assms if' show ?thesis by (simp add: parseDirective_def)
    next
      case f3: False
      show ?thesis
      proof (cases "tok = ''#else''")
        case True
        with assms else' show ?thesis by (simp add: parseDirective_def)
      next
        case f4: False
        show ?thesis
        proof (cases "tok = ''#elif'' \<or> tok = ''#elifdef'' \<or> tok = ''#elifndef''")
          case True
          with assms elif show ?thesis by (auto simp add: parseDirective_def)
        next
          case f5: False
          show ?thesis
          proof (cases "tok = ''#endif''")
            case True
            with assms endif show ?thesis by (simp add: parseDirective_def)
          next
            case False
            with f1 f2 f3 f4 f5 assms other show ?thesis by (simp add: parseDirective_def)
          qed
        qed
      qed
    qed
  qed
qed

lemma parseDirective_pending:
  assumes "parseDirective tok p = Ok p'"
  shows "pending (tr p') \<le> pending (tr p)"
  using assms
proof (cases rule: parseDirective_cases)
  case inc then show ?thesis by (intro handleInclude_pending)
next
  case ifdef then show ?thesis by (intro handleIfdef_pending)
next
  case if' then show ?thesis by (intro handleIf_pending)
next
  case else' then show ?thesis by (intro handleElse_pending)
next
  case elif then show ?thesis by (intro handleElif_pending)
next
  case endif then show ?thesis by simp
next
  case other then show ?thesis by simp
qed

text \<open>
  One iteration of the main loop of \<open>parse\<close>: either the loop goes on with a new state, or
  \<open>parse\<close> returns its pair \<open>(SourceInfo, error)\<close>, with \<open>None\<close> for the nil error.
  A handler that fails has not touched \<open>sourceInfo\<close>, so the \<open>p.sourceInfo\<close> returned with
  its error is the one before the directive. The scanner of an in-memory input has no
  error of its own: \<open>p.tr.scanner.Err()\<close> is nil.
\<close>

datatype step = Continue parser | Return SourceInfo "string option"

definition loopBody :: "parser \<Rightarrow> step result" where
  "loopBody p =
     (case next (tr p) of
        (None, t1) \<Rightarrow> Ok (Return (sourceInfo p) None)
      | (Some tok, t1) \<Rightarrow>
          (let prev = lastToken p; p1 = p\<lparr>tr := t1, lastToken := tok\<rparr>
           in if take 1 tok = ''#'' then
                (case parseDirective tok p1 of
                   Panic s \<Rightarrow> Panic s
                 | Error err \<Rightarrow> Ok (Return (sourceInfo p1) (Some err))
                 | Ok p2 \<Rightarrow> Ok (Continue p2))
              else if tok = ''main'' then
                (case next (tr p1) of
                   (nxt, t2) \<Rightarrow>
                     if nxt = Some ''('' \<and> prev = ''int''
                     then Ok (Continue (p1\<lparr>tr := t2,
                            sourceInfo := (sourceInfo p1)\<lparr>HasMain := True\<rparr>\<rparr>))
                     else Ok (Continue (p1\<lparr>tr := t2\<rparr>)))
              else Ok (Continue p1)))"

lemma loopBody_pending:
  assumes "loopBody p = Ok (Continue p')"
  shows "pending (tr p') < pending (tr p)"
proof -
  obtain x t1 where n: "next (tr p) = (x, t1)" by (cases "next (tr p)")
  show ?thesis
  proof (cases x)
    case None
    with n assms show ?thesis by (simp add: loopBody_def)
  next
    case (Some tok)
    with next_pending[OF n] have lt: "pending t1 < pending (tr p)" by simp
    let ?p1 = "p\<lparr>tr := t1, lastToken := tok\<rparr>"
    consider (dir) "take 1 tok = ''#''" | (main) "take 1 tok \<noteq> ''#''" "tok = ''main''"
      | (other) "take 1 tok \<noteq> ''#''" "tok \<noteq> ''main''" by blast
    then show ?thesis
    proof cases
      case dir
      with n Some assms have "parseDirective tok ?p1 = Ok p'"
        by (cases "parseDirective tok ?p1") (simp_all add: loopBody_def Let_def)
      from parseDirective_pending[OF this] lt show ?thesis by simp
    next
      case main
      obtain nxt t2 where n2: "next t1 = (nxt, t2)" by (cases "next t1")
      from n Some assms main n2 have "tr p' = t2"
        by (auto simp: loopBody_def Let_def split: if_splits)
      with next_pending[OF n2] lt show ?thesis by simp
    next
      case other
      with n Some assms have "p' = ?p1" by (simp add: loopBody_def Let_def)
      with lt show ?thesis by simp
    qed
  qed
qed

function parseLoop :: "parser \<Rightarrow> (SourceInfo \<times> string option) result" where
  "parseLoop p =
     (case loopBody p of
        Panic s \<Rightarrow> Panic s
      | Error err \<Rightarrow> Error err
      | Ok (Return info err) \<Rightarrow> Ok (info, err)
      | Ok (Continue p') \<Rightarrow> parseLoop p')"
  by pat_completeness auto
termination
  by (relation "measure (\<lambda>p. pending (tr p))") (simp_all add: loopBody_pending)

declare parseLoop.simps [simp del]

definition newParser :: "string \<Rightarrow> parser" where
  "newParser input =
     \<lparr>tr = newTokenReader input, lastToken = '''',
      sourceInfo = \<lparr>Includes = [], HasMain = False\<rparr>,
      conditionStack = [], exprGroupStack = []\<rparr>"

definition parse :: "string \<Rightarrow> (SourceInfo \<times> string option) result" where
  "parse input = parseLoop (newParser input)"

definition ParseSource :: "string \<Rightarrow> (SourceInfo \<times> string option) result" where
  "ParseSource input = parse input"

text \<open>One iteration of the main loop leads from \<open>p\<close> to \<open>q\<close>.\<close>

definition stepsTo :: "parser \<Rightarrow> parser \<Rightarrow> bool" where
  "stepsTo p q = (loopBody p = Ok (Continue q))"

text \<open>The parser right after \<open>#ifdef A\<close> at top level, with \<open>toks\<close> left to read.\<close>

definition afterIfdefA :: "string list \<Rightarrow> parser" where
  "afterIfdefA toks =
     \<lparr>tr = \<lparr>scanner = toks, buf = None\<rparr>, lastToken = ''#ifdef'',
      sourceInfo = \<lparr>Includes = [], HasMain = False\<rparr>,
      conditionStack = [Defined ''A''], exprGroupStack = [[Defined ''A'']]\<rparr>"

text \<open>
  \<open>inner n p q\<close>: the main loop gets from \<open>p\<close> to \<open>q\<close> in one or more iterations, and
  after each of them more than \<open>n\<close> conditions are open. With \<open>n\<close> the depth at \<open>p\<close>,
  these are the iterations that open a nested \<open>#if\<close> block and stay inside it.
\<close>

inductive inner :: "nat \<Rightarrow> parser \<Rightarrow> parser \<Rightarrow> bool" where
  enter: "stepsTo p q \<Longrightarrow> n < length (conditionStack q) \<Longrightarrow> inner n p q"
| stay: "inner n p q \<Longrightarrow> stepsTo q r \<Longrightarrow> n < length (conditionStack r) \<Longrightarrow> inner n p r"






section \<open>Package cc: the source grouper\<close>

text \<open>
  Modelled from the spec: \<open>groupSourcesByUnits\<close> (\<open>group_sources\<close> of section 4.4) is not
  among the sources, only its test is. The model follows the spec's words, in the default
  \<open>merge\<close> mode: initial groups by base name, edges from the non-system, unconditional
  includes that resolve to a known group, strongly connected components merged under
  their smallest id, and the dependencies of a merged group taken to the groups outside
  it. The spec leaves the algorithm that finds the components open; they are specified
  here by mutual reachability.
\<close>

record sourceGroup =
  sources :: "string list"
  dependsOn :: "string list"
  subGroups :: "string list"

type_synonym sourceInfos = "string \<rightharpoonup> SourceInfo"

text \<open>The base name of a file: its name with the extension stripped.\<close>

definition baseName :: "string \<Rightarrow> string" where
  "baseName f =
     (if CHR ''.'' \<in> set f then rev (tl (dropWhile (\<lambda>c. c \<noteq> CHR ''.'') (rev f))) else f)"

definition initialGroups :: "string list \<Rightarrow> string list" where
  "initialGroups files = remdups (map baseName files)"

definition fileEdges :: "string list \<Rightarrow> sourceInfos \<Rightarrow> string \<Rightarrow> (string \<times> string) list" where
  "fileEdges files info f =
     (case info f of
        None \<Rightarrow> []
      | Some si \<Rightarrow>
          map (\<lambda>i. (baseName f, baseName (Path i)))
            (filter (\<lambda>i. \<not> IsSystemInclude i \<and> Condition i = None \<and>
                          baseName (Path i) \<in> set (initialGroups files) \<and>
                          baseName (Path i) \<noteq> baseName f)
               (Includes si)))"

definition groupEdges :: "string list \<Rightarrow> sourceInfos \<Rightarrow> (string \<times> string) list" where
  "groupEdges files info = concat (map (fileEdges files info) files)"

text \<open>The members of the strongly connected component of \<open>a\<close>, and its id: the
  lexicographically smallest member.\<close>

definition component :: "(string \<times> string) list \<Rightarrow> string list \<Rightarrow> string \<Rightarrow> string list" where
  "component E ids a = filter (\<lambda>b. (a, b) \<in> (set E)\<^sup>* \<and> (b, a) \<in> (set E)\<^sup>*) ids"

definition componentId :: "(string \<times> string) list \<Rightarrow> string list \<Rightarrow> string \<Rightarrow> string" where
  "componentId E ids a = fold min (component E ids a) a"

definition mergedGroup ::
  "string list \<Rightarrow> (string \<times> string) list \<Rightarrow> string list \<Rightarrow> string \<Rightarrow> sourceGroup" where
  "mergedGroup files E ids r =
     (let members = filter (\<lambda>b. componentId E ids b = r) ids
      in \<lparr>sources = sort (filter (\<lambda>f. componentId E ids (baseName f) = r) files),
          dependsOn = sort (remdups (map (\<lambda>(s, t). componentId E ids t)
                        (filter (\<lambda>(s, t). componentId E ids s = r \<and> componentId E ids t \<noteq> r) E))),
          subGroups = (if length members > 1 then sort members else [])\<rparr>)"

text \<open>The returned map from group id to group, as an association list.\<close>

definition groupSourcesByUnits :: "string list \<Rightarrow> sourceInfos \<Rightarrow> (string \<times> sourceGroup) list" where
  "groupSourcesByUnits files info =
     (let ids = initialGroups files; E = groupEdges files info
      in map (\<lambda>r. (r, mergedGroup files E ids r)) (remdups (map (componentId E ids) ids)))"

text \<open>The graph induced by \<open>depends_on\<close>.\<close>

definition dependsGraph :: "(string \<times> sourceGroup) list \<Rightarrow> (string \<times> string) set" where
  "dependsGraph out = {(g, d). \<exists>grp. (g, grp) \<in> set out \<and> d \<in> set (dependsOn grp)}"

text \<open>Three headers, two of which include each other.\<close>

definition cycleFiles :: "string list" where
  "cycleFiles = [''a.h'', ''b.h'', ''c.h'']"

definition quoted :: "string \<Rightarrow> Include" where
  "quoted path = \<lparr>Path = path, IsSystemInclude = False, Condition = None\<rparr>"

definition cycleInfos :: sourceInfos where
  "cycleInfos =
     [''a.h'' \<mapsto> \<lparr>Includes = [quoted ''b.h''], HasMain = False\<rparr>,
      ''b.h'' \<mapsto> \<lparr>Includes = [quoted ''a.h''], HasMain = False\<rparr>,
      ''c.h'' \<mapsto> \<lparr>Includes = [quoted ''a.h''], HasMain = False\<rparr>]"

section \<open>The condition solver is exact\<close>

lemma Compare_Eval_total: "valid_op (Op c) \<Longrightarrow> \<exists>b. Compare_Eval c m = Ok b"
  by (auto simp: valid_op_def Compare_Eval_def Let_def)

lemma Eval_holds: "valid_ops e \<Longrightarrow> Eval e m = Ok (holds e m)"
proof (induction e)
  case (CompareE c)
  then obtain b where "Compare_Eval c m = Ok b" using Compare_Eval_total by auto
  then show ?case by simp
qed auto

lemma Negate_ok: "valid_op (Op c) \<Longrightarrow> \<exists>c'. Negate c = Ok c' \<and> valid_op (Op c') \<and>
   (\<forall>m. Compare_Eval c' m = Ok True \<longleftrightarrow> Compare_Eval c m = Ok False)"
  by (auto simp: valid_op_def Negate_def Compare_Eval_def Let_def)

lemma nnf_valid: "valid_ops e \<Longrightarrow> valid_ops (toNegationNormalForm e)"
  by (induction e rule: toNegationNormalForm.induct) auto

lemma nnf_holds: "holds (toNegationNormalForm e) m = holds e m"
  by (induction e rule: toNegationNormalForm.induct) auto

lemma nnf_is_nnf: "is_nnf (toNegationNormalForm e)"
  by (induction e rule: toNegationNormalForm.induct) auto

lemma dnfHolds_append: "dnfHolds (d @ d') m = (dnfHolds d m \<or> dnfHolds d' m)"
  by (auto simp: dnfHolds_def)

lemma dnfHolds_distribute: "dnfHolds (distribute l r) m = (dnfHolds l m \<and> dnfHolds r m)"
  by (auto simp: dnfHolds_def distribute_def)

lemma Compare_Eval_False: "valid_op (Op c) \<Longrightarrow> (Compare_Eval c m = Ok False) = (Compare_Eval c m \<noteq> Ok True)"
  using Compare_Eval_total[of c m] by auto

lemma exprToDnf_ok:
  "is_nnf e \<Longrightarrow> valid_ops e \<Longrightarrow>
   \<exists>d. exprToDnf e = Ok d \<and> (\<forall>conj \<in> set d. \<forall>lit \<in> set conj. litValid lit) \<and>
       (\<forall>m. dnfHolds d m = holds e m)"
proof (induction e)
  case (NotE x)
  show ?case
  proof (cases x)
    case (Defined n)
    then show ?thesis by (simp add: dnfHolds_def litHolds_def litValid_def)
  next
    case (CompareE c)
    with NotE.prems have v: "valid_op (Op c)" by simp
    then obtain c' where c': "Negate c = Ok c'" "valid_op (Op c')"
      "\<forall>m. Compare_Eval c' m = Ok True \<longleftrightarrow> Compare_Eval c m = Ok False"
      using Negate_ok[of c] by auto
    with CompareE v show ?thesis
      by (simp add: dnfHolds_def litHolds_def litValid_def Let_def Compare_Eval_False
          split: prod.splits)
  qed (use NotE.prems in auto)
next
  case (AndE l r)
  then obtain dl dr where
    "exprToDnf l = Ok dl" "\<forall>conj \<in> set dl. \<forall>lit \<in> set conj. litValid lit" "\<forall>m. dnfHolds dl m = holds l m"
    "exprToDnf r = Ok dr" "\<forall>conj \<in> set dr. \<forall>lit \<in> set conj. litValid lit" "\<forall>m. dnfHolds dr m = holds r m"
    by auto
  then show ?case by (auto simp: dnfHolds_distribute) (auto simp: distribute_def)
next
  case (OrE l r)
  then obtain dl dr where
    "exprToDnf l = Ok dl" "\<forall>conj \<in> set dl. \<forall>lit \<in> set conj. litValid lit" "\<forall>m. dnfHolds dl m = holds l m"
    "exprToDnf r = Ok dr" "\<forall>conj \<in> set dr. \<forall>lit \<in> set conj. litValid lit" "\<forall>m. dnfHolds dr m = holds r m"
    by auto
  then show ?case by (auto simp: dnfHolds_append)
qed (auto simp: dnfHolds_def litHolds_def litValid_def)

lemma set_Add: "set (Add s p) = insert p (set s)"
  by (auto simp: Add_def)

lemma distinct_Add: "distinct s \<Longrightarrow> distinct (Add s p)"
  by (auto simp: Add_def)

lemma set_foldl_Add: "set (foldl Add s t) = set s \<union> set t"
  by (induction t arbitrary: s) (auto simp: set_Add)

lemma distinct_foldl_Add: "distinct s \<Longrightarrow> distinct (foldl Add s t)"
  by (induction t arbitrary: s) (auto simp: distinct_Add)

lemma set_ToSet: "set (ToSet ps) = set ps"
  by (simp add: ToSet_def set_foldl_Add)

lemma set_Join: "set (Join s t) = set s \<union> set t"
  by (simp add: Join_def set_foldl_Add)

lemma set_foldl_cond_Add:
  "set (foldl (\<lambda>platforms p. if P p then Add platforms p else platforms) acc ks)
   = set acc \<union> {p \<in> set ks. P p}"
  by (induction ks arbitrary: acc) (auto simp: set_Add)

lemma set_platformsForMacro:
  "set (platformsForMacro macro M) = {p \<in> set (keys M). macrosAt M p macro \<noteq> None}"
  unfolding platformsForMacro_def by (subst set_foldl_cond_Add) simp

lemma slowPath_ok:
  "valid_op (Op c) \<Longrightarrow>
   \<exists>r. slowPath M c neg ps acc = Ok r \<and>
       set r = set acc \<union> {p \<in> set ps. Compare_Eval c (macrosAt M p) = Ok (\<not> neg)}"
proof (induction ps arbitrary: acc)
  case Nil
  then show ?case by simp
next
  case (Cons p ps)
  obtain b where b: "Compare_Eval c (macrosAt M p) = Ok b"
    using Compare_Eval_total[OF Cons.prems] by blast
  from Cons.IH[OF Cons.prems, of "if b = (\<not> neg) then Add acc p else acc"] b
  show ?case by (auto simp: set_Add)
qed

lemma macrosAt_not_key: "p \<notin> set (keys M) \<Longrightarrow> macrosAt M p macro = None"
  by (simp add: macrosAt_def keys_def map_of_eq_None_iff[THEN iffD2])

lemma in_platformsForMacro:
  "p \<in> set (platformsForMacro macro M) \<longleftrightarrow> macrosAt M p macro \<noteq> None"
  using macrosAt_not_key[of p M macro] by (cases "macrosAt M p macro") (auto simp: set_platformsForMacro)

lemma evalConjunct_ok:
  "\<forall>lit \<in> set g. litValid lit \<Longrightarrow>
   \<exists>r. evalConjunct M g T = Ok r \<and>
       set r = {p \<in> set T. \<forall>lit \<in> set g. litHolds lit (macrosAt M p)}"
proof (induction g arbitrary: T)
  case Nil
  then show ?case by simp
next
  case (Cons lit lits)
  show ?case
  proof (cases "Comparsion lit")
    case (Some c)
    with Cons.prems have "valid_op (Op c)" by (simp add: litValid_def)
    then obtain f where f: "slowPath M c (Negated lit) T [] = Ok f"
      "set f = {p \<in> set T. Compare_Eval c (macrosAt M p) = Ok (\<not> Negated lit)}"
      using slowPath_ok[of c M "Negated lit" T "[]"] by auto
    from Cons.IH[of f] Cons.prems obtain r where
      "evalConjunct M lits f = Ok r"
      "set r = {p \<in> set f. \<forall>lit \<in> set lits. litHolds lit (macrosAt M p)}" by auto
    with f Some show ?thesis by (auto simp: litHolds_def)
  next
    case None
    define T' where "T' = (if Negated lit then Diff T (platformsForMacro (Macro lit) M)
                           else Intersect T (platformsForMacro (Macro lit) M))"
    have T': "set T' = {p \<in> set T. litHolds lit (macrosAt M p)}"
      using None
      by (auto simp: T'_def Diff_def Intersect_def in_platformsForMacro litHolds_def)
    from Cons.IH[of T'] Cons.prems obtain r where r:
      "evalConjunct M lits T' = Ok r"
      "set r = {p \<in> set T'. \<forall>lit \<in> set lits. litHolds lit (macrosAt M p)}" by auto
    show ?thesis
    proof (cases "T' = []")
      case True
      with T' have "{p \<in> set T. litHolds lit (macrosAt M p)} = {}" by simp
      then have "{p \<in> set T. \<forall>l \<in> set (lit # lits). litHolds l (macrosAt M p)} = {}" by auto
      with True None show ?thesis by (simp add: T'_def[symmetric] Let_def)
    next
      case False
      with r T' None show ?thesis by (auto simp add: T'_def[symmetric] Let_def)
    qed
  qed
qed

lemma evalDnf_ok:
  "\<forall>g \<in> set d. \<forall>lit \<in> set g. litValid lit \<Longrightarrow>
   \<exists>r. evalDnf M ks d acc = Ok r \<and>
       set r = set acc \<union> {p \<in> set ks. dnfHolds d (macrosAt M p)}"
proof (induction d arbitrary: acc)
  case Nil
  then show ?case by (simp add: dnfHolds_def)
next
  case (Cons g d)
  then obtain t where t: "evalConjunct M g (ToSet ks) = Ok t"
     "set t = {p \<in> set ks. \<forall>lit \<in> set g. litHolds lit (macrosAt M p)}"
    using evalConjunct_ok[of g M "ToSet ks"] by (auto simp: set_ToSet)
  from Cons.IH[of "Join acc t"] Cons.prems obtain r where
    "evalDnf M ks d (Join acc t) = Ok r"
    "set r = set (Join acc t) \<union> {p \<in> set ks. dnfHolds d (macrosAt M p)}" by auto
  with t show ?case by (auto simp: set_Join dnfHolds_def)
qed

lemma ComparePlatform_le:
  "ComparePlatform a b \<le> 0 \<longleftrightarrow> OS a < OS b \<or> (OS a = OS b \<and> Arch a \<le> Arch b)"
  by (auto simp: ComparePlatform_def cmp_Compare_def Let_def)

lemma set_insertPlatform: "set (insertPlatform p qs) = insert p (set qs)"
  by (induction qs) auto

lemma set_SortFunc: "set (SortFunc ps) = set ps"
  by (induction ps) (auto simp: SortFunc_def set_insertPlatform)

lemma distinct_insertPlatform: "distinct qs \<Longrightarrow> p \<notin> set qs \<Longrightarrow> distinct (insertPlatform p qs)"
  by (induction qs) (auto simp: set_insertPlatform)

lemma distinct_SortFunc: "distinct ps \<Longrightarrow> distinct (SortFunc ps)"
proof (induction ps)
  case (Cons p ps)
  then have "distinct (foldr insertPlatform ps [])" "p \<notin> set (foldr insertPlatform ps [])"
    using set_SortFunc[of ps] by (auto simp: SortFunc_def)
  then show ?case by (simp add: SortFunc_def distinct_insertPlatform)
qed (simp add: SortFunc_def)

lemma sorted_insertPlatform:
  "sorted_wrt (\<lambda>a b. ComparePlatform a b \<le> 0) qs \<Longrightarrow>
   sorted_wrt (\<lambda>a b. ComparePlatform a b \<le> 0) (insertPlatform p qs)"
proof (induction qs)
  case (Cons q qs)
  then show ?case
    by (auto simp: set_insertPlatform ComparePlatform_le)
qed simp

lemma sorted_SortFunc: "sorted_wrt (\<lambda>a b. ComparePlatform a b \<le> 0) (SortFunc ps)"
  by (induction ps) (auto simp: SortFunc_def sorted_insertPlatform)

lemma distinct_evalDnf: "distinct acc \<Longrightarrow> evalDnf M ks d acc = Ok r \<Longrightarrow> distinct r"
proof (induction d arbitrary: acc)
  case (Cons g d)
  show ?case
  proof (cases "evalConjunct M g (ToSet ks)")
    case (Ok t)
    with Cons.prems have "evalDnf M ks d (Join acc t) = Ok r" by simp
    moreover have "distinct (Join acc t)"
      using Cons.prems(1) by (simp add: Join_def distinct_foldl_Add)
    ultimately show ?thesis by (rule Cons.IH[rotated])
  qed (use Cons.prems in auto)
qed simp

lemma PlatformsForExpr_Some:
  assumes "valid_ops e"
  shows "\<exists>matched. PlatformsForExpr (Some e) M = Ok (Some (SortFunc matched)) \<and> distinct matched \<and>
           set matched = {p \<in> set (keys M). holds e (macrosAt M p)}"
proof -
  let ?n = "toNegationNormalForm e"
  from exprToDnf_ok[OF nnf_is_nnf nnf_valid[OF assms]] obtain d where d:
    "exprToDnf ?n = Ok d" "\<forall>g \<in> set d. \<forall>lit \<in> set g. litValid lit"
    "\<forall>m. dnfHolds d m = holds ?n m" by blast
  from evalDnf_ok[OF d(2), of M "keys M" "[]"] obtain r where r:
    "evalDnf M (keys M) d [] = Ok r"
    "set r = {p \<in> set (keys M). dnfHolds d (macrosAt M p)}" by auto
  have dr: "distinct r" using distinct_evalDnf[OF _ r(1)] by simp
  have v: "(case Values r of None \<Rightarrow> [] | Some vs \<Rightarrow> vs) = r"
    by (simp add: Values_def)
  have "PlatformsForExpr (Some e) M = Ok (Some (SortFunc r))"
    using d(1) r(1) v by (simp add: PlatformsForExpr_def toDNF_def)
  moreover have "set r = {p \<in> set (keys M). holds e (macrosAt M p)}"
    using r(2) d(3) by (simp add: nnf_holds)
  ultimately show ?thesis using dr by blast
qed

text \<open>
  Claim C1. For a guard \<open>e\<close> whose comparison operators are among the six of the data
  model and any platform-to-macros map \<open>M\<close>, \<open>PlatformsForExpr\<close> returns a non-nil
  slice that holds exactly the platforms of \<open>M\<close> on whose macros \<open>e\<close> evaluates to true
  under \<open>Eval\<close>, without duplicates and sorted by \<open>ComparePlatform\<close>: the DNF route with
  its fast and slow paths agrees with direct evaluation on every platform.
\<close>

theorem PlatformsForExpr_exact:
  assumes "valid_ops e"
  shows "\<exists>ps. PlatformsForExpr (Some e) M = Ok (Some ps) \<and>
           set ps = {p \<in> set (keys M). Eval e (macrosAt M p) = Ok True} \<and>
           distinct ps \<and> sorted_wrt (\<lambda>a b. ComparePlatform a b \<le> 0) ps"
proof -
  from PlatformsForExpr_Some[OF assms, of M] obtain matched where m:
    "PlatformsForExpr (Some e) M = Ok (Some (SortFunc matched))" "distinct matched"
    "set matched = {p \<in> set (keys M). holds e (macrosAt M p)}" by blast
  have "set (SortFunc matched) = {p \<in> set (keys M). Eval e (macrosAt M p) = Ok True}"
    using m(3) by (simp add: set_SortFunc Eval_holds[OF assms])
  with m(1,2) show ?thesis
    using distinct_SortFunc sorted_SortFunc by blast
qed

theorem PlatformsForExpr_exact_witness:
  "valid_ops comboExpr \<and>
   PlatformsForExpr (Some comboExpr) freshPlatformMacros = Ok (Some [linuxAMD64, windowsAMD64]) \<and>
   {p \<in> set (keys freshPlatformMacros). Eval comboExpr (macrosAt freshPlatformMacros p) = Ok True}
     = {linuxAMD64, windowsAMD64}"
proof -
  have v: "valid_ops comboExpr" by (simp add: comboExpr_def valid_op_def)
  have c: "PlatformsForExpr (Some comboExpr) freshPlatformMacros
           = Ok (Some [linuxAMD64, windowsAMD64])"
    by (simp add: PlatformsForExpr_def toDNF_def comboExpr_def freshPlatformMacros_def
      linuxAMD64_def windowsAMD64_def keys_def Values_def SortFunc_def Join_def ToSet_def Add_def
      platformsForMacro_def macrosAt_def Intersect_def Diff_def Compare_Eval_def
      ComparePlatform_def cmp_Compare_def distribute_def)
  from PlatformsForExpr_exact[OF v, of freshPlatformMacros] c v show ?thesis by auto
qed

lemma PlatformsForExpr_Some_not_nil: "PlatformsForExpr (Some e') M \<noteq> Ok None"
proof (cases "toDNF e'")
  case (Ok d)
  then show ?thesis
    by (cases "evalDnf M (keys M) d []") (simp_all add: PlatformsForExpr_def Let_def)
qed (simp_all add: PlatformsForExpr_def)

text \<open>
  Claim C9. \<open>PlatformsForExpr\<close> returns the nil slice exactly for the nil expression; for
  every non-nil expression (operators among the six) and every map, also the empty one and
  one where no platform matches, it returns a non-nil, possibly empty, slice.
\<close>

theorem PlatformsForExpr_nil_iff:
  "(PlatformsForExpr e M = Ok None \<longleftrightarrow> e = None) \<and>
   (\<forall>e'. e = Some e' \<and> valid_ops e' \<longrightarrow> (\<exists>ps. PlatformsForExpr e M = Ok (Some ps)))"
proof (cases e)
  case None
  then show ?thesis by (simp add: PlatformsForExpr_def)
next
  case (Some e')
  then show ?thesis
    using PlatformsForExpr_Some_not_nil[of e' M] PlatformsForExpr_Some[of e' M] by auto
qed

theorem PlatformsForExpr_nil_iff_witness:
  "valid_ops (Defined ''OTHER'') \<and>
   PlatformsForExpr (Some (Defined ''OTHER'')) [] = Ok (Some []) \<and>
   PlatformsForExpr (Some (Defined ''OTHER'')) freshPlatformMacros = Ok (Some []) \<and>
   PlatformsForExpr None freshPlatformMacros = Ok None"
proof -
  have "PlatformsForExpr (Some (Defined ''OTHER'')) [] = Ok (Some [])"
    by (simp add: PlatformsForExpr_def toDNF_def keys_def Values_def SortFunc_def ToSet_def
        platformsForMacro_def Intersect_def Join_def)
  moreover have "PlatformsForExpr (Some (Defined ''OTHER'')) freshPlatformMacros = Ok (Some [])"
    by (simp add: PlatformsForExpr_def toDNF_def freshPlatformMacros_def
      linuxAMD64_def windowsAMD64_def keys_def Values_def SortFunc_def Join_def ToSet_def Add_def
      platformsForMacro_def macrosAt_def Intersect_def)
  ultimately show ?thesis
    using PlatformsForExpr_nil_iff[of None freshPlatformMacros]
      PlatformsForExpr_nil_iff[of "Some (Defined ''OTHER'')" "[]"]
    by simp
qed

section \<open>The platform table\<close>

lemma map_of_setMacro:
  "map_of (setMacro p ms T) q = (if q = p \<and> map_of T p \<noteq> None then Some ms else map_of T q)"
  by (induction T) (auto simp: setMacro_def)

lemma macrosAt_addMacroValue:
  "macrosAt (addMacroValue name v ps T) q n =
     (if q \<in> set ps \<and> n = name then Some v else macrosAt T q n)"
proof (induction ps arbitrary: T)
  case Nil
  then show ?case by simp
next
  case (Cons p ps)
  show ?case
  proof (cases "map_of T p")
    case None
    then show ?thesis
      by (simp add: Cons.IH) (auto simp: macrosAt_def map_add_def split: option.splits)
  next
    case (Some ms)
    then show ?thesis
      by (simp add: Cons.IH) (auto simp: macrosAt_def map_of_setMacro split: option.splits)
  qed
qed

lemma macrosAt_addMacros:
  "macrosAt (addMacros names ps T) q n =
     (if q \<in> set ps \<and> n \<in> set names then Some 1 else macrosAt T q n)"
  by (induction names arbitrary: T) (auto simp: addMacro_def macrosAt_addMacroValue)

lemma macrosAt_runInit:
  "macrosAt (runInit calls T) q n = (if registers calls q n then Some 1 else macrosAt T q n)"
  by (induction calls arbitrary: T) (auto simp: macrosAt_addMacros)

lemma KnownPlatformMacros_lookup:
  "macrosAt KnownPlatformMacros q n = (if registers initCalls q n then Some 1 else None)"
  by (simp add: KnownPlatformMacros_def macrosAt_runInit) (simp add: macrosAt_def)

lemmas os_defs = android_def chromiumos_def emscripten_def freebsd_def fuchsia_def haiku_def
  ios_def linux_def netbsd_def nixos_def none_def openbsd_def osx_def qnx_def tvos_def uefi_def
  visionos_def vxworks_def wasi_def watchos_def windows_def allKnownOs_def

lemmas arch_defs = aarch32_def aarch64_def arm64_32_def arm64e_def armv6m_def armv7_def
  armv7em_def armv7emf_def armv7k_def armv7m_def armv8m_def cortexr52_def cortexr82_def i386_def
  mips64_def ppc_def ppc32_def ppc64le_def riscv32_def riscv64_def s390x_def wasm32_def
  wasm64_def x86_32_def x86_64_def allKnownArch_def

lemmas init_defs = windowsArchs_def linuxArchs_def androidArchs_def chromeArchs_def unixOS_def
  wasmArchs_def bsdArchs_def qnxArchs_def haikuArchs_def fuchsiaArchs_def vxworksArchs_def
  uefiArchs_def macArchs_def iosArchs_def tvosArchs_def watchArchs_def visionArchs_def
  applePlatforms_def powerPCOS_def mipsOS_def riscvOS_def
  platformsMatrix_def osArchPlatform_def osArchPlatforms_def archOsPlatforms_def

text \<open>
  Claim C5 says that \<open>__x86_64__\<close> is predefined exactly on the platforms whose
  architecture is \<open>x86_64\<close>. The table that \<open>init\<close> builds registers the macro with
  \<open>archOsPlatforms(aarch64, allKnownOs)\<close>: it is undefined on \<open>linux/x86_64\<close> and
  defined, with value 1, on \<open>linux/aarch64\<close>.
\<close>

theorem x86_64_macro_misplaced:
  "macrosAt KnownPlatformMacros \<lparr>OS = linux, Arch = x86_64\<rparr> ''__x86_64__'' = None \<and>
   macrosAt KnownPlatformMacros \<lparr>OS = linux, Arch = aarch64\<rparr> ''__x86_64__'' = Some 1"
  by (simp add: KnownPlatformMacros_lookup initCalls_def init_defs os_defs arch_defs)

lemmas char_defs = isEOL_def newline_def IsSpace_def isParanthesis_def isOperatorChar_def
  stopsWord_def EOL_def quote_def backslash_def

lemmas parse_simps = parseOr.simps parseOrLoop.simps parseAnd.simps parseAndLoop.simps
  parseUnary.simps parseDefined_def parsePrimary_def ts_peek_def ts_consume_def ts_next_def
  interpretValue_def isBinaryCompareOperator_def macroIdentifierRegex_def isLetter_def isDigit_def

lemmas int_simps = parseIntLiteral_def ParseInt0_def ParseUint0_def digitVal_def lower_def
  underscoreOK_def hasBasePrefix_def

section \<open>The source parser\<close>

lemmas reader_simps = nextInternal.simps next_def peek_def peekInternal_def fetch_def
  newTokenReader_def

lemmas parser_simps = parseLoop.simps loopBody_def newParser_def parseIdent.simps collect.simps
  parseExpr_def handleInclude_def handleIfdef_def handleIf_def handleElse_def handleElif_def
  elifExpr_def
  parseDirective_def recordInclude_def TrimQuotes_def currentGuard_def pushCondition_def
  popCondition_def currentGroup_def pushNewGroup_def appendToCurrentGroup_def popGroup_def
  orAll_def parse_def ParseSource_def

text \<open>
  Claim C4 says that no input makes \<open>ParseSource\<close> panic. A \<open>#if\<close> directly followed by
  the end of the line leaves the expression parser with no token, and \<open>tokensStream.next\<close>
  panics.
\<close>

theorem truncated_if_panics:
  "ParseSource (''#if'' @ [newline]) = Panic ''unexpected EOL in expression''"
  by (simp add: parser_simps reader_simps char_defs parse_simps)

text \<open>
  Claim C6 says that an include whose quoted path lacks the closing quote is recorded as
  a system include. The parser records it as a quoted include.
\<close>

theorem unterminated_quote_not_system:
  "ParseSource (''#include '' @ [quote] @ ''stdio.h'' @ [newline]) =
     Ok (\<lparr>Includes = [\<lparr>Path = ''stdio.h'', IsSystemInclude = False, Condition = None\<rparr>],
          HasMain = False\<rparr>, None)"
  by (simp add: parser_simps reader_simps char_defs)

text \<open>
  Claim C6 as amended. After \<open>#include\<close>, a path token other than \<open><\<close> is recorded as a
  system include exactly when it contains no double quote at all (as in
  \<open>#include exception>\<close>); a token with a quote, terminated or not, is a quoted include.
  After \<open><\<close> the following token is recorded as a system include.
\<close>

theorem handleInclude_classification:
  assumes "next (tr p) = (Some include, t1)"
  shows "(include \<noteq> ''<'' \<longrightarrow>
            (\<exists>p'. handleInclude p = Ok p' \<and>
               Includes (sourceInfo p') = Includes (sourceInfo p) @
                 [\<lparr>Path = TrimQuotes include, IsSystemInclude = (quote \<notin> set include),
                   Condition = currentGuard p\<rparr>])) \<and>
         (include = ''<'' \<longrightarrow> (\<forall>include' t2. next t1 = (Some include', t2) \<longrightarrow>
            (\<exists>p'. handleInclude p = Ok p' \<and>
               Includes (sourceInfo p') = Includes (sourceInfo p) @
                 [\<lparr>Path = TrimQuotes include', IsSystemInclude = True,
                   Condition = currentGuard p\<rparr>])))"
  using assms by (auto simp: handleInclude_def recordInclude_def currentGuard_def)

theorem handleInclude_classification_witness:
  "next (tr (newParser ([quote] @ ''stdio.h'' @ [newline]))) =
     (Some ([quote] @ ''stdio.h''), \<lparr>scanner = [EOL], buf = None\<rparr>) \<and>
   [quote] @ ''stdio.h'' \<noteq> ''<'' \<and>
   (\<exists>p'. handleInclude (newParser ([quote] @ ''stdio.h'' @ [newline])) = Ok p' \<and>
      Includes (sourceInfo p') =
        [\<lparr>Path = ''stdio.h'', IsSystemInclude = False, Condition = None\<rparr>])"
proof -
  have n: "next (tr (newParser ([quote] @ ''stdio.h'' @ [newline]))) =
     (Some ([quote] @ ''stdio.h''), \<lparr>scanner = [EOL], buf = None\<rparr>)"
    by (simp add: newParser_def reader_simps char_defs)
  have q: "[quote] @ ''stdio.h'' \<noteq> ''<''" by simp
  from handleInclude_classification[OF n] q show ?thesis
    using n by (simp add: newParser_def TrimQuotes_def currentGuard_def char_defs)
qed











lemma parseIdent_frame: "parseIdent p = Ok (t, p') \<Longrightarrow> p' = p\<lparr>tr := tr p'\<rparr>"
proof (induction "pending (tr p)" arbitrary: p rule: less_induct)
  case less
  obtain x t1 where n: "next (tr p) = (x, t1)" by (cases "next (tr p)")
  show ?case
  proof (cases x)
    case None
    with n less.prems show ?thesis by (simp add: parseIdent.simps[of p])
  next
    case (Some token)
    with next_pending[OF n] have lt: "pending (tr (p\<lparr>tr := t1\<rparr>)) < pending (tr p)" by simp
    show ?thesis
    proof (cases "token = backslash")
      case True
      with n Some less.prems have "parseIdent (p\<lparr>tr := t1\<rparr>) = Ok (t, p')"
        by (simp add: parseIdent.simps[of p])
      from less.hyps[OF lt this] show ?thesis by simp
    next
      case False
      with n Some less.prems show ?thesis by (auto simp: parseIdent.simps[of p])
    qed
  qed
qed

lemma parseExpr_frame: "parseExpr p = Ok (e, p') \<Longrightarrow> p' = p\<lparr>tr := tr p'\<rparr>"
  by (auto simp: parseExpr_def rbind_eq_Ok)

lemma elifExpr_frame:
  assumes "elifExpr k p = Ok (e, p')"
  shows "p' = p\<lparr>tr := tr p'\<rparr>"
proof (cases "k = ''#elif''")
  case True
  with assms show ?thesis by (simp add: elifExpr_def parseExpr_frame)
next
  case False
  with assms obtain ident where "parseIdent p = Ok (ident, p')"
    by (auto simp: elifExpr_def rbind_eq_Ok)
  then show ?thesis by (rule parseIdent_frame)
qed

lemma handleElse_effect:
  assumes "conditionStack p = cs @ [c]" and "exprGroupStack p = gs @ [x # xs]"
  shows "handleElse p =
           Ok (p\<lparr>conditionStack := cs @ [NotE (foldl OrE x xs)],
                 exprGroupStack := gs @ [(x # xs) @ [NotE (foldl OrE x xs)]]\<rparr>)"
  using assms
  by (simp add: handleElse_def currentGroup_def popCondition_def orAll_def Let_def
      pushCondition_def appendToCurrentGroup_def)

lemma handleElif_effect:
  assumes "conditionStack p = cs @ [c]" and "exprGroupStack p = gs @ [x # xs]"
    and "elifExpr kind (snd (popCondition p)) = Ok (e, p2)"
  shows "handleElif kind p =
           Ok (p\<lparr>tr := tr p2, conditionStack := cs @ [AndE e (NotE (foldl OrE x xs))],
                 exprGroupStack := gs @ [(x # xs) @ [e]]\<rparr>)"
proof -
  from assms(1) have pc: "popCondition p = (True, p\<lparr>conditionStack := cs\<rparr>)"
    by (simp add: popCondition_def)
  with assms(3) have e: "elifExpr kind (p\<lparr>conditionStack := cs\<rparr>) = Ok (e, p2)" by simp
  from elifExpr_frame[OF e] have p2: "p2 = p\<lparr>conditionStack := cs, tr := tr p2\<rparr>" by simp
  have "handleElif kind p =
      appendToCurrentGroup e (pushCondition (AndE e (NotE (foldl OrE x xs))) p2)"
    using assms(2) pc e
    by (simp add: handleElif_def currentGroup_def orAll_def Let_def)
  also have "\<dots> = Ok (p\<lparr>tr := tr p2, conditionStack := cs @ [AndE e (NotE (foldl OrE x xs))],
                 exprGroupStack := gs @ [(x # xs) @ [e]]\<rparr>)"
    by (subst (1 2) p2) (simp add: pushCondition_def appendToCurrentGroup_def assms(2))
  finally show ?thesis .
qed

text \<open>
  Claim C7 says that a \<open>#elif\<close> after \<open>#else\<close> in the same block is ignored. The parser
  processes it: the include that follows is guarded by the new branch, not by the
  condition it has when the \<open>#elif\<close> line is absent.
\<close>

theorem elif_after_else_not_ignored:
  "ParseSource (''#ifdef A'' @ [newline] @ ''#else'' @ [newline] @ ''#elif B'' @ [newline] @
                ''#include <x.h>'' @ [newline] @ ''#endif'' @ [newline]) =
     Ok (\<lparr>Includes = [\<lparr>Path = ''x.h'', IsSystemInclude = True,
            Condition = Some (AndE (CompareE (Compare (Ident ''B'') ''!='' (Constant 0)))
                               (NotE (OrE (Defined ''A'') (NotE (Defined ''A'')))))\<rparr>],
          HasMain = False\<rparr>, None) \<and>
   ParseSource (''#ifdef A'' @ [newline] @ ''#else'' @ [newline] @
                ''#include <x.h>'' @ [newline] @ ''#endif'' @ [newline]) =
     Ok (\<lparr>Includes = [\<lparr>Path = ''x.h'', IsSystemInclude = True,
            Condition = Some (NotE (Defined ''A''))\<rparr>],
          HasMain = False\<rparr>, None)"
  by (simp add: parser_simps reader_simps char_defs parse_simps Let_def)

lemma currentGuard_last:
  "conditionStack p = cs @ [a] \<Longrightarrow>
   currentGuard p = Some (case cs of [] \<Rightarrow> a | c0 # rest \<Rightarrow> AndE (foldl AndE c0 rest) a)"
  by (cases cs) (simp_all add: currentGuard_def)

lemma currentGuard_last_neq:
  assumes "conditionStack p = cs @ [a]" and "conditionStack q = cs @ [b]" and "a \<noteq> b"
  shows "currentGuard p \<noteq> currentGuard q"
  using assms by (cases cs) (simp_all add: currentGuard_last[of _ cs])

text \<open>
  Claim C7 as amended. Inside a block, \<open>#else\<close> replaces the branch condition by the
  negation of the disjunction of the branches seen so far and adds that negation to the
  seen list. A \<open>#elif\<close>, \<open>#elifdef\<close> or \<open>#elifndef\<close> that follows and whose expression
  parses is processed like any other: it returns no error, replaces the branch condition
  by the conjunction of its expression with the negation of the disjunction of all
  branches seen, the one of \<open>#else\<close> included, and so changes the guard of the includes
  that follow.
\<close>

theorem elif_after_else_processed:
  assumes "conditionStack p = cs @ [c]" and "exprGroupStack p = gs @ [x # xs]"
  shows "\<exists>p1. handleElse p = Ok p1 \<and>
           conditionStack p1 = cs @ [NotE (foldl OrE x xs)] \<and>
           (\<forall>kind e p2. elifExpr kind (snd (popCondition p1)) = Ok (e, p2) \<longrightarrow>
              (\<exists>p3. handleElif kind p1 = Ok p3 \<and>
                 conditionStack p3 =
                   cs @ [AndE e (NotE (foldl OrE x (xs @ [NotE (foldl OrE x xs)])))] \<and>
                 exprGroupStack p3 = gs @ [x # xs @ [NotE (foldl OrE x xs), e]] \<and>
                 currentGuard p3 \<noteq> currentGuard p1))"
proof -
  define p1 where "p1 = p\<lparr>conditionStack := cs @ [NotE (foldl OrE x xs)],
                 exprGroupStack := gs @ [(x # xs) @ [NotE (foldl OrE x xs)]]\<rparr>"
  have h: "handleElse p = Ok p1"
    unfolding p1_def using assms by (rule handleElse_effect)
  have c1: "conditionStack p1 = cs @ [NotE (foldl OrE x xs)]"
    and g1: "exprGroupStack p1 = gs @ [x # (xs @ [NotE (foldl OrE x xs)])]"
    by (simp_all add: p1_def)
  have "\<exists>p3. handleElif kind p1 = Ok p3 \<and>
                 conditionStack p3 =
                   cs @ [AndE e (NotE (foldl OrE x (xs @ [NotE (foldl OrE x xs)])))] \<and>
                 exprGroupStack p3 = gs @ [x # xs @ [NotE (foldl OrE x xs), e]] \<and>
                 currentGuard p3 \<noteq> currentGuard p1"
    if e: "elifExpr kind (snd (popCondition p1)) = Ok (e, p2)" for kind e p2
  proof -
    let ?b = "AndE e (NotE (foldl OrE x (xs @ [NotE (foldl OrE x xs)])))"
    let ?p3 = "p1\<lparr>tr := tr p2, conditionStack := cs @ [?b],
                 exprGroupStack := gs @ [(x # (xs @ [NotE (foldl OrE x xs)])) @ [e]]\<rparr>"
    have "handleElif kind p1 = Ok ?p3"
      using c1 g1 e by (rule handleElif_effect)
    moreover have "currentGuard ?p3 \<noteq> currentGuard p1"
      by (rule currentGuard_last_neq[of _ cs ?b _ "NotE (foldl OrE x xs)"]) (simp_all add: c1)
    ultimately show ?thesis by simp
  qed
  with h c1 show ?thesis by blast
qed

theorem elif_after_else_processed_witness:
  "conditionStack (afterIfdefA [''B'', EOL]) = [] @ [Defined ''A''] \<and>
   exprGroupStack (afterIfdefA [''B'', EOL]) = [] @ [Defined ''A'' # []] \<and>
   (\<exists>p1 p3. handleElse (afterIfdefA [''B'', EOL]) = Ok p1 \<and>
      conditionStack p1 = [NotE (Defined ''A'')] \<and>
      handleElif ''#elifdef'' p1 = Ok p3 \<and>
      conditionStack p3 =
        [AndE (Defined ''B'') (NotE (OrE (Defined ''A'') (NotE (Defined ''A''))))] \<and>
      currentGuard p3 \<noteq> currentGuard p1)"
proof -
  have c: "conditionStack (afterIfdefA [''B'', EOL]) = [] @ [Defined ''A'']"
    and g: "exprGroupStack (afterIfdefA [''B'', EOL]) = [] @ [Defined ''A'' # []]"
    by (simp_all add: afterIfdefA_def)
  from elif_after_else_processed[OF c g] obtain p1 where
    p1: "handleElse (afterIfdefA [''B'', EOL]) = Ok p1"
      "conditionStack p1 = [NotE (Defined ''A'')]"
    and all: "\<And>kind e p2. elifExpr kind (snd (popCondition p1)) = Ok (e, p2) \<Longrightarrow>
       \<exists>p3. handleElif kind p1 = Ok p3 \<and>
         conditionStack p3 = [] @ [AndE e (NotE (foldl OrE (Defined ''A'')
                                 ([] @ [NotE (foldl OrE (Defined ''A'') [])])))] \<and>
         exprGroupStack p3 = [] @ [Defined ''A'' # [] @ [NotE (foldl OrE (Defined ''A'') []), e]] \<and>
         currentGuard p3 \<noteq> currentGuard p1"
    by auto
  have "handleElse (afterIfdefA [''B'', EOL]) =
     Ok ((afterIfdefA [''B'', EOL])\<lparr>conditionStack := [NotE (Defined ''A'')],
          exprGroupStack := [[Defined ''A'', NotE (Defined ''A'')]]\<rparr>)"
    by (simp add: afterIfdefA_def parser_simps Let_def)
  with p1(1) have p1_eq: "p1 = (afterIfdefA [''B'', EOL])\<lparr>conditionStack := [NotE (Defined ''A'')],
          exprGroupStack := [[Defined ''A'', NotE (Defined ''A'')]]\<rparr>" by simp
  have "elifExpr ''#elifdef'' (snd (popCondition p1)) =
     Ok (Defined ''B'', (snd (popCondition p1))\<lparr>tr := \<lparr>scanner = [EOL], buf = None\<rparr>\<rparr>)"
    unfolding p1_eq
    by (simp add: afterIfdefA_def parser_simps reader_simps char_defs)
  from all[OF this] p1 c g show ?thesis by auto
qed

section \<open>The two stacks of the parser\<close>












lemma take_butlast_snoc: "n < length xs \<Longrightarrow> take n (butlast xs @ ys) = take n xs"
  by (simp add: take_butlast)






section \<open>The source grouper\<close>

lemma fold_min_in: "fold min xs (a::string) \<in> insert a (set xs)"
  by (induction xs arbitrary: a) (auto simp: min_def)

lemma fold_min_Min: "fold min xs (a::string) = Min (insert a (set xs))"
  using Min.set_eq_fold[of a xs] by simp

lemma groupEdges_in_ids:
  assumes "(s, t) \<in> set (groupEdges files info)"
  shows "s \<in> set (initialGroups files) \<and> t \<in> set (initialGroups files)"
  using assms
  by (auto simp: groupEdges_def fileEdges_def initialGroups_def split: option.splits)

lemma componentId_reach:
  assumes "a \<in> set ids"
  shows "(a, componentId E ids a) \<in> (set E)\<^sup>* \<and> (componentId E ids a, a) \<in> (set E)\<^sup>* \<and>
         componentId E ids a \<in> set ids"
proof -
  have "componentId E ids a \<in> insert a (set (component E ids a))"
    unfolding componentId_def by (rule fold_min_in)
  with assms show ?thesis by (auto simp: component_def)
qed

lemma componentId_eq:
  assumes "a \<in> set ids" "b \<in> set ids" "(a, b) \<in> (set E)\<^sup>*" "(b, a) \<in> (set E)\<^sup>*"
  shows "componentId E ids a = componentId E ids b"
proof -
  have "component E ids a = component E ids b"
    unfolding component_def using assms(3,4)
    by (intro filter_cong refl) (meson rtrancl_trans)
  moreover have "a \<in> set (component E ids b)" "b \<in> set (component E ids b)"
    using assms by (simp_all add: component_def)
  ultimately have "insert a (set (component E ids a)) = insert b (set (component E ids b))"
    by auto
  then show ?thesis by (simp add: componentId_def fold_min_Min)
qed

lemma componentId_idem:
  assumes "a \<in> set ids"
  shows "componentId E ids (componentId E ids a) = componentId E ids a"
  using componentId_reach[OF assms, of E] assms by (intro componentId_eq) simp_all

lemma dependsGraph_edge:
  assumes "(g, d) \<in> dependsGraph (groupSourcesByUnits files info)"
  shows "\<exists>s t. (s, t) \<in> set (groupEdges files info) \<and>
           g = componentId (groupEdges files info) (initialGroups files) s \<and>
           d = componentId (groupEdges files info) (initialGroups files) t \<and> g \<noteq> d"
  using assms
  by (auto simp: dependsGraph_def groupSourcesByUnits_def mergedGroup_def Let_def) metis

lemma dependsGraph_reach:
  assumes "(g, d) \<in> dependsGraph (groupSourcesByUnits files info)"
  shows "(g, d) \<in> (set (groupEdges files info))\<^sup>* \<and> g \<noteq> d \<and>
         g \<in> set (initialGroups files) \<and> d \<in> set (initialGroups files) \<and>
         componentId (groupEdges files info) (initialGroups files) g = g \<and>
         componentId (groupEdges files info) (initialGroups files) d = d"
proof -
  let ?E = "groupEdges files info" and ?ids = "initialGroups files"
  from dependsGraph_edge[OF assms] obtain s t where
    e: "(s, t) \<in> set ?E" "g = componentId ?E ?ids s" "d = componentId ?E ?ids t" "g \<noteq> d"
    by blast
  from groupEdges_in_ids[OF e(1)] have in_ids: "s \<in> set ?ids" "t \<in> set ?ids" by simp_all
  from componentId_reach[OF in_ids(1), of ?E] componentId_reach[OF in_ids(2), of ?E] e
  have "(g, s) \<in> (set ?E)\<^sup>*" "(t, d) \<in> (set ?E)\<^sup>*" "g \<in> set ?ids" "d \<in> set ?ids"
    by simp_all
  moreover from e(1) have "(s, t) \<in> (set ?E)\<^sup>*" by blast
  ultimately have "(g, d) \<in> (set ?E)\<^sup>*" "g \<in> set ?ids" "d \<in> set ?ids"
    by (meson rtrancl_trans)+
  with e componentId_idem[OF in_ids(1), of ?E] componentId_idem[OF in_ids(2), of ?E]
  show ?thesis by simp
qed

lemma dependsGraph_trancl_reach:
  assumes "(g, d) \<in> (dependsGraph (groupSourcesByUnits files info))\<^sup>+"
  shows "(g, d) \<in> (set (groupEdges files info))\<^sup>* \<and> d \<in> set (initialGroups files) \<and>
         componentId (groupEdges files info) (initialGroups files) d = d"
  using assms
proof (induction rule: trancl_induct)
  case (base y)
  from dependsGraph_reach[OF base] show ?case by simp
next
  case (step y z)
  from dependsGraph_reach[OF step(2)] step(3) show ?case by (meson rtrancl_trans)
qed

text \<open>
  Claim C8. In the map returned by the source grouper, the graph induced by
  \<open>depends_on\<close> is acyclic and no group depends on its own id.
\<close>

theorem groups_depends_on_acyclic:
  "acyclic (dependsGraph (groupSourcesByUnits files info)) \<and>
   (\<forall>(g, grp) \<in> set (groupSourcesByUnits files info). g \<notin> set (dependsOn grp))"
proof
  let ?E = "groupEdges files info" and ?ids = "initialGroups files"
  let ?D = "dependsGraph (groupSourcesByUnits files info)"
  show "acyclic ?D"
  proof (rule acyclicI, rule allI, rule notI)
    fix x assume "(x, x) \<in> ?D\<^sup>+"
    then obtain y where xy: "(x, y) \<in> ?D" and yx: "(y, x) \<in> ?D\<^sup>*"
      by (meson tranclD)
    from dependsGraph_reach[OF xy] have a: "(x, y) \<in> (set ?E)\<^sup>*" "x \<noteq> y"
      "x \<in> set ?ids" "y \<in> set ?ids" "componentId ?E ?ids x = x" "componentId ?E ?ids y = y"
      by simp_all
    have "(y, x) \<in> (set ?E)\<^sup>*"
    proof (cases "y = x")
      case False
      with yx have "(y, x) \<in> ?D\<^sup>+" by (simp add: rtrancl_eq_or_trancl)
      from dependsGraph_trancl_reach[OF this] show ?thesis by simp
    qed simp
    from componentId_eq[OF a(3,4) a(1) this] a(5,6) have "x = y" by simp
    with a(2) show False by simp
  qed
  show "\<forall>(g, grp) \<in> set (groupSourcesByUnits files info). g \<notin> set (dependsOn grp)"
    by (auto simp: groupSourcesByUnits_def mergedGroup_def Let_def)
qed

theorem groups_depends_on_acyclic_witness:
  "groupSourcesByUnits cycleFiles cycleInfos =
     [(''a'', \<lparr>sources = [''a.h'', ''b.h''], dependsOn = [], subGroups = [''a'', ''b'']\<rparr>),
      (''c'', \<lparr>sources = [''c.h''], dependsOn = [''a''], subGroups = []\<rparr>)] \<and>
   acyclic (dependsGraph (groupSourcesByUnits cycleFiles cycleInfos)) \<and>
   (''c'', \<lparr>sources = [''c.h''], dependsOn = [''a''], subGroups = []\<rparr>)
     \<in> set (groupSourcesByUnits cycleFiles cycleInfos) \<and>
   ''c'' \<notin> set (dependsOn \<lparr>sources = [''c.h''], dependsOn = [''a''], subGroups = []\<rparr>)"
proof -
  have c: "componentId [(''a'', ''b''), (''b'', ''a''), (''c'', ''a'')] [''a'', ''b'', ''c''] ''a'' = ''a''"
    "componentId [(''a'', ''b''), (''b'', ''a''), (''c'', ''a'')] [''a'', ''b'', ''c''] ''b'' = ''a''"
    "componentId [(''a'', ''b''), (''b'', ''a''), (''c'', ''a'')] [''a'', ''b'', ''c''] ''c'' = ''c''"
    by (simp_all add: componentId_def component_def rtrancl_insert)
  have i: "initialGroups cycleFiles = [''a'', ''b'', ''c'']"
    by (simp add: initialGroups_def cycleFiles_def baseName_def)
  have e: "groupEdges cycleFiles cycleInfos = [(''a'', ''b''), (''b'', ''a''), (''c'', ''a'')]"
    by (simp add: groupEdges_def fileEdges_def cycleFiles_def cycleInfos_def quoted_def
        baseName_def initialGroups_def)
  have b: "baseName ''a.h'' = ''a''" "baseName ''b.h'' = ''b''" "baseName ''c.h'' = ''c''"
    by (simp_all add: baseName_def)
  have g: "groupSourcesByUnits cycleFiles cycleInfos =
     [(''a'', \<lparr>sources = [''a.h'', ''b.h''], dependsOn = [], subGroups = [''a'', ''b'']\<rparr>),
      (''c'', \<lparr>sources = [''c.h''], dependsOn = [''a''], subGroups = []\<rparr>)]"
    unfolding groupSourcesByUnits_def i e Let_def mergedGroup_def
    by (simp add: c b cycleFiles_def)
  from groups_depends_on_acyclic[of cycleFiles cycleInfos] g show ?thesis by auto
qed

end
